theory Spec2Isabelle
  imports Complex_Main
begin

section \<open>Numbers\<close>

text \<open>
  The program is TypeScript: every \<open>number\<close> is modelled as a \<^typ>\<open>real\<close>, and counts,
  indices and byte sizes as \<^typ>\<open>nat\<close>. The arithmetic of the detection service is
  exact; the quality arithmetic of the image encoder, on which the number of its encode
  attempts depends, rounds to double precision as the program does. The model covers
  finite numbers only: it has no NaN and no infinity, and a tensor is read only at indices
  it holds (the theorems about the decoder assume so).
\<close>

section \<open>detectionService.ts: the detection service\<close>

definition MODEL_INPUT_SHAPE :: "nat list" where
  "MODEL_INPUT_SHAPE = [1, 3, 640, 640]"

definition STRIDES :: "nat list" where
  "STRIDES = [8, 16, 32]"

definition CONFIDENCE_THRESHOLD :: real where
  "CONFIDENCE_THRESHOLD = 35 / 100"

definition NMS_THRESHOLD :: real where
  "NMS_THRESHOLD = 45 / 100"

text \<open>The type \<open>BoundingBox\<close>; the fields \<open>x, y, w, h\<close> carry the prefix \<open>box_\<close>.\<close>

record BoundingBox =
  box_x :: real
  box_y :: real
  box_w :: real
  box_h :: real
  confidence :: real

text \<open>
  The private fields of the class \<open>DetectionService\<close>. \<open>session\<close> records whether the
  ONNX session is non-null.
\<close>

record DetectionService =
  session :: bool
  modelInputShape :: "nat list"
  numProposals :: nat
  gridX :: "nat list"
  gridY :: "nat list"
  stridePerProposal :: "nat list"
  channels :: nat

definition newDetectionService :: DetectionService where
  "newDetectionService =
     \<lparr>session = False, modelInputShape = MODEL_INPUT_SHAPE, numProposals = 0,
      gridX = [], gridY = [], stridePerProposal = [], channels = 0\<rparr>"

subsection \<open>prepareGrids\<close>

text \<open>The three \<open>push\<close> calls of the innermost loop body.\<close>

definition push_cell :: "nat \<Rightarrow> nat \<Rightarrow> nat \<Rightarrow> DetectionService \<Rightarrow> DetectionService" where
  "push_cell stride y x svc =
     svc\<lparr>gridX := gridX svc @ [x],
         gridY := gridY svc @ [y],
         stridePerProposal := stridePerProposal svc @ [stride]\<rparr>"

text \<open>The callback of \<open>STRIDES.forEach\<close>: the two nested counting loops for one stride.\<close>

definition grids_of_stride :: "nat \<Rightarrow> nat \<Rightarrow> nat \<Rightarrow> DetectionService \<Rightarrow> DetectionService" where
  "grids_of_stride modelWidth modelHeight stride svc =
     (let nx = modelWidth div stride;
          ny = modelHeight div stride
      in fold (\<lambda>y. fold (\<lambda>x. push_cell stride y x) [0..<nx]) [0..<ny] svc)"

text \<open>
  \<open>prepareGrids\<close> with the stride list as a parameter. \<open>modelInputShape.slice(2)\<close> is
  destructured into \<open>[modelWidth, modelHeight]\<close>, so \<open>modelWidth\<close> is the entry at index 2
  and \<open>modelHeight\<close> the entry at index 3. A stride of 0 makes \<open>modelHeight / stride\<close>
  infinite when \<open>modelHeight\<close> is positive, and the loop over \<open>y\<close> never ends: the result
  is \<open>None\<close> there.
\<close>

definition prepareGridsFor :: "nat list \<Rightarrow> DetectionService \<Rightarrow> DetectionService option" where
  "prepareGridsFor strides svc =
     (let modelWidth = modelInputShape svc ! 2;
          modelHeight = modelInputShape svc ! 3;
          svc1 = svc\<lparr>gridX := [], gridY := [], stridePerProposal := []\<rparr>
      in if 0 \<in> set strides \<and> 0 < modelHeight then None
         else let svc2 = fold (grids_of_stride modelWidth modelHeight) strides svc1
              in Some (svc2\<lparr>numProposals := length (gridX svc2)\<rparr>))"

definition prepareGrids :: "DetectionService \<Rightarrow> DetectionService option" where
  "prepareGrids svc = prepareGridsFor STRIDES svc"

text \<open>
  The proposals the specification asks for: for each stride in order, the cells in raster
  order with \<open>x\<close> innermost, as triples \<open>(s, x, y)\<close>.
\<close>

definition raster_proposals :: "nat list \<Rightarrow> nat \<Rightarrow> nat \<Rightarrow> (nat \<times> nat \<times> nat) list" where
  "raster_proposals strides W H =
     concat (map (\<lambda>s. concat (map (\<lambda>y. map (\<lambda>x. (s, x, y)) [0..<W div s]) [0..<H div s])) strides)"

text \<open>The proposals a service holds, read off its three parallel arrays.\<close>

definition proposals_of :: "DetectionService \<Rightarrow> (nat \<times> nat \<times> nat) list" where
  "proposals_of svc = zip (stridePerProposal svc) (zip (gridX svc) (gridY svc))"

text \<open>The three arrays of a service are aligned when they have one length.\<close>

definition aligned :: "DetectionService \<Rightarrow> bool" where
  "aligned svc \<longleftrightarrow>
     length (gridX svc) = length (stridePerProposal svc) \<and>
     length (gridY svc) = length (stridePerProposal svc)"

subsection \<open>sigmoid, clamp and iou\<close>

definition sigmoid :: "real \<Rightarrow> real" where
  "sigmoid v = 1 / (1 + exp (- v))"

definition clamp :: "real \<Rightarrow> real \<Rightarrow> real \<Rightarrow> real" where
  "clamp v lo hi = max lo (min hi v)"

definition iou :: "BoundingBox \<Rightarrow> BoundingBox \<Rightarrow> real" where
  "iou a b =
     (let x1 = max (box_x a) (box_x b);
          y1 = max (box_y a) (box_y b);
          x2 = min (box_x a + box_w a) (box_x b + box_w b);
          y2 = min (box_y a + box_h a) (box_y b + box_h b);
          intersection = max 0 (x2 - x1) * max 0 (y2 - y1)
      in if intersection \<le> 0 then 0
         else let unionArea = box_w a * box_h a + box_w b * box_h b - intersection
              in if unionArea \<le> 0 then 0 else intersection / unionArea)"

subsection \<open>nonMaxSuppression\<close>

text \<open>
  The inner loop \<open>for (let i = sorted.length - 1; i >= 0; i--)\<close>: the last argument is
  \<open>i + 1\<close>, and \<open>sorted.splice(i, 1)\<close> removes the entry at index \<open>i\<close>. The array
  \<open>sorted\<close> of the program is \<open>sortedBoxes\<close> here.
\<close>

fun splice_loop :: "BoundingBox \<Rightarrow> real \<Rightarrow> BoundingBox list \<Rightarrow> nat \<Rightarrow> BoundingBox list" where
  "splice_loop current iouThreshold sortedBoxes 0 = sortedBoxes"
| "splice_loop current iouThreshold sortedBoxes (Suc i) =
     splice_loop current iouThreshold
       (if iou current (sortedBoxes ! i) > iouThreshold
        then take i sortedBoxes @ drop (Suc i) sortedBoxes
        else sortedBoxes) i"

lemma length_splice_loop:
  "length (splice_loop current iouThreshold sortedBoxes n) \<le> length sortedBoxes"
proof (induction n arbitrary: sortedBoxes)
  case 0
  show ?case by simp
next
  case (Suc n)
  have "length (take n sortedBoxes @ drop (Suc n) sortedBoxes) \<le> length sortedBoxes"
    by simp
  with Suc [of "take n sortedBoxes @ drop (Suc n) sortedBoxes"] Suc [of sortedBoxes] show ?case
    by (simp del: length_append length_take length_drop)
qed

text \<open>
  The loop \<open>while (sorted.length)\<close>: \<open>sorted.shift()\<close> takes the head, which is pushed on
  \<open>selected\<close>.
\<close>

function nms_loop :: "real \<Rightarrow> BoundingBox list \<Rightarrow> BoundingBox list \<Rightarrow> BoundingBox list" where
  "nms_loop iouThreshold [] selected = selected"
| "nms_loop iouThreshold (current # sortedBoxes) selected =
     nms_loop iouThreshold
       (splice_loop current iouThreshold sortedBoxes (length sortedBoxes)) (selected @ [current])"
  by pat_completeness auto
termination
  by (relation "measure (\<lambda>(t, sortedBoxes, selected). length sortedBoxes)")
     (simp_all add: length_splice_loop le_imp_less_Suc)

text \<open>
  \<open>[...boxes].sort((a, b) => b.confidence - a.confidence)\<close> is a stable sort by descending
  confidence (the sort of an array is stable since ECMAScript 2019), that is, by ascending
  negated confidence.
\<close>

definition nonMaxSuppression :: "BoundingBox list \<Rightarrow> real \<Rightarrow> BoundingBox list" where
  "nonMaxSuppression boxes iouThreshold =
     (if length boxes \<le> 1 then boxes
      else let sortedBoxes = sort_key (\<lambda>b. - confidence b) boxes
           in nms_loop iouThreshold sortedBoxes [])"

subsection \<open>processOutput\<close>

text \<open>
  The body of the loop over the proposals: \<open>boxes\<close> is the array built so far, and
  \<open>continue\<close> leaves it as it is. \<open>output\<close> is the \<open>Float32Array\<close>.
\<close>

definition decode_step ::
  "DetectionService \<Rightarrow> real list \<Rightarrow> real \<Rightarrow> real \<Rightarrow> real \<Rightarrow> real \<Rightarrow> nat \<Rightarrow> nat \<Rightarrow>
   BoundingBox list \<Rightarrow> BoundingBox list" where
  "decode_step svc output imageWidth imageHeight scaleX scaleY numChannels i boxes =
     (let stride = real (stridePerProposal svc ! i);
          gx = real (gridX svc ! i);
          gy = real (gridY svc ! i);
          xRaw = output ! (0 * numProposals svc + i);
          yRaw = output ! (1 * numProposals svc + i);
          wRaw = output ! (2 * numProposals svc + i);
          hRaw = output ! (3 * numProposals svc + i);
          objectness = sigmoid (output ! (4 * numProposals svc + i));
          classScore =
            (if numChannels > 5
             then fold (\<lambda>c maxClassScore.
                          let score = sigmoid (output ! (c * numProposals svc + i))
                          in if score > maxClassScore then score else maxClassScore)
                    [5..<numChannels] 0
             else 1);
          conf = objectness * classScore
      in if conf < CONFIDENCE_THRESHOLD then boxes
         else let xCenter = (sigmoid xRaw * 2 - 0.5 + gx) * stride;
                  yCenter = (sigmoid yRaw * 2 - 0.5 + gy) * stride;
                  width = (sigmoid wRaw * 2) ^ 2 * stride;
                  height = (sigmoid hRaw * 2) ^ 2 * stride;
                  x = clamp ((xCenter - width / 2) * scaleX) 0 imageWidth;
                  y = clamp ((yCenter - height / 2) * scaleY) 0 imageHeight;
                  w = clamp (width * scaleX) 1 imageWidth;
                  h = clamp (height * scaleY) 1 imageHeight
              in boxes @ [\<lparr>box_x = x, box_y = y, box_w = w, box_h = h, confidence = conf\<rparr>])"

text \<open>
  \<open>processOutput\<close> returns the empty array, after a warning on the console, when the grid
  is not prepared and when there are fewer than five channels.
\<close>

definition processOutput :: "DetectionService \<Rightarrow> real list \<Rightarrow> real \<Rightarrow> real \<Rightarrow> BoundingBox list" where
  "processOutput svc output imageWidth imageHeight =
     (if numProposals svc = 0 then []
      else let numChannels =
                 (if channels svc \<noteq> 0 then channels svc
                  else length output div numProposals svc)
           in if numChannels < 5 then []
              else let modelWidth = real (modelInputShape svc ! 2);
                       modelHeight = real (modelInputShape svc ! 3);
                       scaleX = imageWidth / modelWidth;
                       scaleY = imageHeight / modelHeight;
                       boxes = fold (decode_step svc output imageWidth imageHeight
                                       scaleX scaleY numChannels)
                                 [0..<numProposals svc] []
                   in nonMaxSuppression boxes NMS_THRESHOLD)"

subsection \<open>initialize and detectFaces\<close>

text \<open>The errors the program throws, one constructor for each \<open>throw\<close> and each rejection.\<close>

datatype error =
    ModelFetchFailed
  | SessionCreateFailed
  | NotInitialized
  | BitmapFailed
  | NoContext2D
  | InferenceFailed
  | NoCanvasContext
  | ToBlobFailed
  | SizeExceeded
  | NoFaces
  | UploadFailed

text \<open>
  \<open>initialize\<close>: \<open>fetch_ok\<close> tells whether the model file was fetched and \<open>create_ok\<close>
  whether the session was created; the catch block rethrows.
\<close>

definition initialize :: "bool \<Rightarrow> bool \<Rightarrow> DetectionService \<Rightarrow> (error + DetectionService) option" where
  "initialize fetch_ok create_ok svc =
     (if session svc then Some (Inr svc)
      else if \<not> fetch_ok then Some (Inl ModelFetchFailed)
      else if \<not> create_ok then Some (Inl SessionCreateFailed)
      else map_option Inr (prepareGrids (svc\<lparr>session := True\<rparr>)))"

text \<open>The tensor the inference session returns: its declared shape and its flat buffer.\<close>

record OutputTensor =
  dims :: "nat list"
  tdata :: "real list"

text \<open>
  \<open>detectFaces\<close>. The outcomes of the awaited calls are arguments: \<open>drawable\<close> is the
  result of \<open>getDrawableAndDimensions\<close> (the image's width and height, or the rejection of
  \<open>createImageBitmap\<close>), \<open>ctx_ok\<close> tells whether the canvas gave a 2D context, and \<open>run\<close>
  is the result of \<open>session.run\<close>. The service is returned with the result, since the
  first call stores the channel count.
\<close>

definition detectFaces ::
  "DetectionService \<Rightarrow> error + real \<times> real \<Rightarrow> bool \<Rightarrow> error + OutputTensor \<Rightarrow>
   error + DetectionService \<times> BoundingBox list" where
  "detectFaces svc drawable ctx_ok run =
     (if \<not> session svc then Inl NotInitialized
      else (case drawable of
              Inl e \<Rightarrow> Inl e
            | Inr (imageWidth, imageHeight) \<Rightarrow>
                (if \<not> ctx_ok then Inl NoContext2D
                 else (case run of
                         Inl e \<Rightarrow> Inl e
                       | Inr outputTensor \<Rightarrow>
                           (let svc' = (if channels svc = 0 \<and> length (dims outputTensor) \<ge> 3
                                        then svc\<lparr>channels := dims outputTensor ! 1\<rparr>
                                        else if channels svc = 0 then svc\<lparr>channels := 0\<rparr>
                                        else svc)
                            in Inr (svc', processOutput svc' (tdata outputTensor)
                                            imageWidth imageHeight))))))"

subsection \<open>Auxiliary definitions for nonMaxSuppression\<close>

text \<open>The test of the inner loop, negated: the boxes that \<open>current\<close> leaves in the array.\<close>

definition keeps :: "BoundingBox \<Rightarrow> real \<Rightarrow> BoundingBox \<Rightarrow> bool" where
  "keeps current iouThreshold b \<longleftrightarrow> \<not> iou current b > iouThreshold"

text \<open>
  The selection as a function of the sorted array alone, without the accumulator
  \<open>selected\<close>.
\<close>

function greedy :: "real \<Rightarrow> BoundingBox list \<Rightarrow> BoundingBox list" where
  "greedy t [] = []"
| "greedy t (c # xs) = c # greedy t (filter (keeps c t) xs)"
  by pat_completeness auto
termination
  by (relation "measure (\<lambda>(t, xs). length xs)") (simp_all add: le_imp_less_Suc)

text \<open>The area of a box and of the intersection of two boxes, as the specification names them.\<close>

definition area :: "BoundingBox \<Rightarrow> real" where
  "area b = box_w b * box_h b"

definition intersectionArea :: "BoundingBox \<Rightarrow> BoundingBox \<Rightarrow> real" where
  "intersectionArea a b =
     max 0 (min (box_x a + box_w a) (box_x b + box_w b) - max (box_x a) (box_x b)) *
     max 0 (min (box_y a + box_h a) (box_y b + box_h b) - max (box_y a) (box_y b))"

text \<open>Three boxes: the second overlaps the first, the third is apart from both.\<close>

definition boxA :: BoundingBox where
  "boxA = \<lparr>box_x = 0, box_y = 0, box_w = 10, box_h = 10, confidence = 9 / 10\<rparr>"
definition boxB :: BoundingBox where
  "boxB = \<lparr>box_x = 1, box_y = 1, box_w = 10, box_h = 10, confidence = 8 / 10\<rparr>"
definition boxC :: BoundingBox where
  "boxC = \<lparr>box_x = 20, box_y = 20, box_w = 5, box_h = 5, confidence = 5 / 10\<rparr>"

subsection \<open>The per-proposal decode as the specification words it\<close>

text \<open>
  The tensor is logically shaped \<open>[channels, numProposals]\<close>: \<open>raw svc output c i\<close> is the
  specification's \<open>raw[c][i]\<close>.
\<close>

definition raw :: "DetectionService \<Rightarrow> real list \<Rightarrow> nat \<Rightarrow> nat \<Rightarrow> real" where
  "raw svc output c i = output ! (c * numProposals svc + i)"

definition spec_classScore :: "DetectionService \<Rightarrow> real list \<Rightarrow> nat \<Rightarrow> nat \<Rightarrow> real" where
  "spec_classScore svc output numChannels i =
     (if numChannels > 5 then Max ((\<lambda>c. sigmoid (raw svc output c i)) ` {5..<numChannels}) else 1)"

definition spec_confidence :: "DetectionService \<Rightarrow> real list \<Rightarrow> nat \<Rightarrow> nat \<Rightarrow> real" where
  "spec_confidence svc output numChannels i =
     sigmoid (raw svc output 4 i) * spec_classScore svc output numChannels i"

definition spec_xCenter :: "DetectionService \<Rightarrow> real list \<Rightarrow> nat \<Rightarrow> real" where
  "spec_xCenter svc output i =
     (sigmoid (raw svc output 0 i) * 2 - 1 / 2 + real (gridX svc ! i)) * real (stridePerProposal svc ! i)"

definition spec_yCenter :: "DetectionService \<Rightarrow> real list \<Rightarrow> nat \<Rightarrow> real" where
  "spec_yCenter svc output i =
     (sigmoid (raw svc output 1 i) * 2 - 1 / 2 + real (gridY svc ! i)) * real (stridePerProposal svc ! i)"

definition spec_width :: "DetectionService \<Rightarrow> real list \<Rightarrow> nat \<Rightarrow> real" where
  "spec_width svc output i = (sigmoid (raw svc output 2 i) * 2) ^ 2 * real (stridePerProposal svc ! i)"

definition spec_height :: "DetectionService \<Rightarrow> real list \<Rightarrow> nat \<Rightarrow> real" where
  "spec_height svc output i = (sigmoid (raw svc output 3 i) * 2) ^ 2 * real (stridePerProposal svc ! i)"

text \<open>
  The conversion to the pixel space of the image: the corner from the centre, the two
  scale factors, and the clamping.
\<close>

definition to_image_box ::
  "real \<Rightarrow> real \<Rightarrow> real \<Rightarrow> real \<Rightarrow> real \<Rightarrow> real \<Rightarrow> real \<Rightarrow> real \<Rightarrow> real \<Rightarrow> BoundingBox" where
  "to_image_box xCenter yCenter width height conf scaleX scaleY imageWidth imageHeight =
     \<lparr>box_x = clamp ((xCenter - width / 2) * scaleX) 0 imageWidth,
      box_y = clamp ((yCenter - height / 2) * scaleY) 0 imageHeight,
      box_w = clamp (width * scaleX) 1 imageWidth,
      box_h = clamp (height * scaleY) 1 imageHeight,
      confidence = conf\<rparr>"

text \<open>The box of proposal \<open>i\<close> in an image of the given size.\<close>

definition spec_box ::
  "DetectionService \<Rightarrow> real list \<Rightarrow> real \<Rightarrow> real \<Rightarrow> nat \<Rightarrow> nat \<Rightarrow> BoundingBox" where
  "spec_box svc output imageWidth imageHeight numChannels i =
     to_image_box (spec_xCenter svc output i) (spec_yCenter svc output i)
       (spec_width svc output i) (spec_height svc output i)
       (spec_confidence svc output numChannels i)
       (imageWidth / real (modelInputShape svc ! 2)) (imageHeight / real (modelInputShape svc ! 3))
       imageWidth imageHeight"

text \<open>
  The channel count \<open>processOutput\<close> works with: the stored one, or else the length of
  the buffer divided by the number of proposals.
\<close>

definition channel_count :: "DetectionService \<Rightarrow> real list \<Rightarrow> nat" where
  "channel_count svc output =
     (if channels svc \<noteq> 0 then channels svc else length output div numProposals svc)"

text \<open>
  The decoder reads the three grid arrays at every proposal and the buffer at every channel
  of every proposal, and divides by the width and the height of the model. Where an array
  or the buffer is too short the program reads \<open>undefined\<close> and computes with NaN, and
  a division by zero gives an infinity or NaN, none of which the model has: the theorems
  about the decoder assume that the shape has four entries with a positive width and
  height and that the arrays hold \<open>numProposals\<close> entries each, as after \<open>prepareGrids\<close>,
  and that the buffer holds a number for every read.
\<close>

definition grids_prepared :: "DetectionService \<Rightarrow> bool" where
  "grids_prepared svc \<longleftrightarrow>
     length (modelInputShape svc) = 4 \<and>
     0 < modelInputShape svc ! 2 \<and> 0 < modelInputShape svc ! 3 \<and>
     length (gridX svc) = numProposals svc \<and>
     length (gridY svc) = numProposals svc \<and>
     length (stridePerProposal svc) = numProposals svc"

definition reads_in_range :: "DetectionService \<Rightarrow> real list \<Rightarrow> bool" where
  "reads_in_range svc output \<longleftrightarrow>
     grids_prepared svc \<and> channel_count svc output * numProposals svc \<le> length output"

text \<open>Proposal \<open>i\<close> survives the confidence threshold.\<close>

definition survives :: "DetectionService \<Rightarrow> real list \<Rightarrow> nat \<Rightarrow> nat \<Rightarrow> bool" where
  "survives svc output numChannels i \<longleftrightarrow>
     \<not> spec_confidence svc output numChannels i < CONFIDENCE_THRESHOLD"

text \<open>
  The property of claim C2: the box lies in the image, with \<open>x + w\<close> and \<open>y + h\<close> within
  the width and the height.
\<close>

definition inside_image :: "real \<Rightarrow> real \<Rightarrow> BoundingBox \<Rightarrow> bool" where
  "inside_image imageWidth imageHeight b \<longleftrightarrow>
     0 \<le> box_x b \<and> 0 \<le> box_y b \<and>
     box_x b + box_w b \<le> imageWidth \<and> box_y b + box_h b \<le> imageHeight"

subsection \<open>Concrete services and tensors\<close>

text \<open>
  The service after \<open>initialize\<close> (lemma \<open>initialize_ready\<close> below): the grid of the
  640 by 640 model with the strides 8, 16 and 32, 8400 proposals.
\<close>

definition readyService :: DetectionService where
  "readyService =
     \<lparr>session = True, modelInputShape = MODEL_INPUT_SHAPE, numProposals = 8400,
      gridX = map (fst \<circ> snd) (raster_proposals STRIDES 640 640),
      gridY = map (snd \<circ> snd) (raster_proposals STRIDES 640 640),
      stridePerProposal = map fst (raster_proposals STRIDES 640 640),
      channels = 0\<rparr>"

text \<open>
  A tensor of five channels for that grid: the four box channels are 0 everywhere, and the
  objectness is 0 at proposal 79 (the last cell of the first row of stride 8) and \<open>-1\<close> at
  every other proposal. \<open>edgeBox\<close> is the box proposal 79 decodes to in an image of 64
  by 64 pixels.
\<close>

definition edgeTensor :: "real list" where
  "edgeTensor = replicate (4 * 8400) 0 @ replicate 79 (- 1) @ [0] @ replicate 8320 (- 1)"

definition edgeBox :: BoundingBox where
  "edgeBox = \<lparr>box_x = 632 / 10, box_y = 0, box_w = 1, box_h = 1, confidence = 1 / 2\<rparr>"

text \<open>A tensor of four channels for the same grid.\<close>

definition fourChannelTensor :: OutputTensor where
  "fourChannelTensor = \<lparr>dims = [1, 4, 8400], tdata = replicate (4 * 8400) 0\<rparr>"

text \<open>
  A service whose grid is the single cell of an 8 by 8 model with stride 8, and a tensor of
  seven channels for it, with objectness \<open>ln 9\<close>.
\<close>

definition cellService :: DetectionService where
  "cellService =
     \<lparr>session = True, modelInputShape = [1, 3, 8, 8], numProposals = 1,
      gridX = [0], gridY = [0], stridePerProposal = [8], channels = 0\<rparr>"

definition cellTensor :: "real list" where
  "cellTensor = [0, 0, 0, 0, ln 9, 0, 0]"

text \<open>The fields \<open>prepareGrids\<close> leaves as they are.\<close>

definition rest_fields :: "DetectionService \<Rightarrow> bool \<times> nat list \<times> nat \<times> nat" where
  "rest_fields svc = (session svc, modelInputShape svc, numProposals svc, channels svc)"

section \<open>imageUtils: cropResizeToBlob\<close>

text \<open>
  The options of \<open>cropResizeToBlob\<close> are a \<open>Partial\<close>: every field may be absent, and
  the destructuring gives an absent field its default.
\<close>

record EncodeOptions =
  targetSize :: "real option"
  maxBytes :: "real option"
  qualityStart :: "real option"
  qualityStep :: "real option"
  minQuality :: "real option"
  webpFallback :: "bool option"

definition noOptions :: EncodeOptions where
  "noOptions =
     \<lparr>targetSize = None, maxBytes = None, qualityStart = None, qualityStep = None,
      minQuality = None, webpFallback = None\<rparr>"

definition or_default :: "'a option \<Rightarrow> 'a \<Rightarrow> 'a" where
  "or_default v d = (case v of None \<Rightarrow> d | Some a \<Rightarrow> a)"

text \<open>
  The canvas after \<open>drawImage\<close>: the square crop of the source (corner and side) and the
  side of the target.
\<close>

record Canvas =
  crop_x :: real
  crop_y :: real
  crop_size :: real
  canvas_size :: real

text \<open>\<open>Math.round\<close> rounds to the nearest integer, a half upwards.\<close>

definition js_round :: "real \<Rightarrow> real" where
  "js_round v = real_of_int \<lfloor>v + 1 / 2\<rfloor>"

text \<open>The square around the centre of the box, and the canvas it is drawn on.\<close>

definition draw_crop :: "BoundingBox \<Rightarrow> real \<Rightarrow> Canvas" where
  "draw_crop bbox tSize =
     (let size = max (box_w bbox) (box_h bbox);
          cx = box_x bbox + box_w bbox / 2;
          cy = box_y bbox + box_h bbox / 2
      in \<lparr>crop_x = js_round (cx - size / 2), crop_y = js_round (cy - size / 2),
          crop_size = size, canvas_size = tSize\<rparr>)"

text \<open>
  What the browser does for one call: \<open>has_context\<close> tells whether \<open>getContext('2d')\<close>
  gives a context, \<open>bitmap_resolves\<close> whether \<open>createImageBitmap\<close> resolves, and
  \<open>toBlob canvas type quality\<close> is the outcome of \<open>canvasToBlob(type, quality)\<close> on that
  canvas: the size of the blob in bytes, or the rejection.
\<close>

record Browser =
  has_context :: bool
  bitmap_resolves :: bool
  toBlob :: "Canvas \<Rightarrow> string \<Rightarrow> real \<Rightarrow> error + nat"

text \<open>
  The result of \<open>cropResizeToBlob\<close>, its fields \<open>blob, format, width, height\<close> with the
  prefix \<open>enc_\<close>; the blob is known by its size.
\<close>

record EncodedImage =
  enc_blob :: nat
  enc_format :: string
  enc_width :: real
  enc_height :: real
  sizeBytes :: nat

subsection \<open>Double precision\<close>

text \<open>
  The qualities are JavaScript numbers, that is IEEE 754 doubles, and the loop computes
  \<open>quality - qualityStep\<close> in double precision: the exact difference rounded to the
  nearest double, a tie to the one with the even significand. A double is modelled as the
  real it denotes. \<open>pow2 k\<close> is the power of 2 with the integer exponent \<open>k\<close>, and
  \<open>round_half_even\<close> rounds to the nearest integer, a tie to the even one.
\<close>

definition pow2 :: "int \<Rightarrow> real" where
  "pow2 k = (if 0 \<le> k then 2 ^ nat k else 1 / 2 ^ nat (- k))"

definition round_half_even :: "real \<Rightarrow> int" where
  "round_half_even y =
     (let f = \<lfloor>y\<rfloor>; d = y - real_of_int f
      in if d < 1 / 2 then f else if 1 / 2 < d then f + 1 else if even f then f else f + 1)"

text \<open>
  The binary exponent of a number, not below that of the smallest normal double: the
  subnormal numbers have the spacing of the smallest normal ones.
\<close>

definition double_exponent :: "real \<Rightarrow> int" where
  "double_exponent v = max \<lfloor>log 2 \<bar>v\<bar>\<rfloor> (- 1022)"

text \<open>
  \<open>double v\<close> is the double nearest to the real \<open>v\<close>: the value of a decimal literal of
  the program, and the result of an operation whose exact result is \<open>v\<close>. The significand
  has 53 bits, so the doubles around \<open>v\<close> are the multiples of \<open>pow2 (e - 52)\<close>, for the
  exponent \<open>e\<close> of \<open>v\<close>. The model has no largest double: a result beyond it, which the
  program holds as an infinity, is outside the model.
\<close>

definition double :: "real \<Rightarrow> real" where
  "double v =
     (if v = 0 then 0
      else (let ulp = pow2 (double_exponent v - 52)
            in sgn v * real_of_int (round_half_even (\<bar>v\<bar> / ulp)) * ulp))"

text \<open>The operator \<open>-\<close> of the program on two doubles.\<close>

definition double_minus :: "real \<Rightarrow> real \<Rightarrow> real" where
  "double_minus a b = double (a - b)"

text \<open>
  A bound of the rounding error of one subtraction \<open>quality - qualityStep\<close> of the loop,
  whose quality lies between \<open>minQuality\<close> and \<open>qualityStart\<close>: the relative error of a
  rounding is at most \<open>pow2 (- 53)\<close>, and the absolute error of a subnormal result at most
  \<open>pow2 (- 1075)\<close>.
\<close>

definition rounding_error :: "real \<Rightarrow> real \<Rightarrow> real \<Rightarrow> real" where
  "rounding_error qStart minQ qStep =
     (\<bar>qStart\<bar> + \<bar>minQ\<bar> + qStep) * pow2 (- 53) + pow2 (- 1075)"

subsection \<open>The search for a quality\<close>

text \<open>
  The loop \<open>while (blob.size > maxBytes && quality > minQuality)\<close>, which the program
  writes twice: for JPEG with the options of the call, and for WebP with the start 0.9, the
  step 0.12 and the floor 0.25. The loop may run forever, so the result is an option. It
  records the calls of \<open>canvasToBlob\<close>: \<open>attempts\<close> holds the qualities of the calls made
  so far, in the order of the calls, and the result holds the qualities of all the calls
  made, with the last quality and blob, or the rejection of the last call.
\<close>

partial_function (option) quality_loop ::
  "(string \<Rightarrow> real \<Rightarrow> error + nat) \<Rightarrow> string \<Rightarrow> real \<Rightarrow> real \<Rightarrow> real \<Rightarrow>
   real \<Rightarrow> nat \<Rightarrow> real list \<Rightarrow> (real list \<times> (error + real \<times> nat)) option" where
  "quality_loop canvasToBlob type maxB minQ step quality blobSize attempts =
     (if real blobSize > maxB \<and> quality > minQ
      then (let quality' = max minQ (double_minus quality step)
            in (case canvasToBlob type quality' of
                  Inl e \<Rightarrow> Some (attempts @ [quality'], Inl e)
                | Inr blobSize' \<Rightarrow>
                    quality_loop canvasToBlob type maxB minQ step quality' blobSize'
                      (attempts @ [quality'])))
      else Some (attempts, Inr (quality, blobSize)))"

text \<open>
  The search for one format: the first call of \<open>canvasToBlob\<close> at the start quality, then
  the loop.
\<close>

definition quality_search ::
  "(string \<Rightarrow> real \<Rightarrow> error + nat) \<Rightarrow> string \<Rightarrow> real \<Rightarrow> real \<Rightarrow> real \<Rightarrow> real \<Rightarrow>
   (real list \<times> (error + real \<times> nat)) option" where
  "quality_search canvasToBlob type maxB start step minQ =
     (case canvasToBlob type start of
        Inl e \<Rightarrow> Some ([start], Inl e)
      | Inr blobSize \<Rightarrow> quality_loop canvasToBlob type maxB minQ step start blobSize [start])"

text \<open>
  Lines 117 to 152 of \<open>cropResizeToBlob\<close>: the JPEG search, the WebP fallback inside its
  \<open>try\<close> (a rejection there is caught and the JPEG blob kept), and the final test. The
  literals 0.9, 0.12 and 0.25 of the fallback are doubles. The result holds the qualities
  of the JPEG calls and of the WebP calls besides the outcome.
\<close>

definition encode_search ::
  "(string \<Rightarrow> real \<Rightarrow> error + nat) \<Rightarrow> real \<Rightarrow> real \<Rightarrow> real \<Rightarrow> real \<Rightarrow> real \<Rightarrow> bool \<Rightarrow>
   (real list \<times> real list \<times> (error + EncodedImage)) option" where
  "encode_search canvasToBlob tSize maxB qStart qStep minQ fallback =
     (case quality_search canvasToBlob ''image/jpeg'' maxB qStart qStep minQ of
        None \<Rightarrow> None
      | Some (jpegAttempts, Inl e) \<Rightarrow> Some (jpegAttempts, [], Inl e)
      | Some (jpegAttempts, Inr (quality, jpegBlob)) \<Rightarrow>
          (case (if real jpegBlob > maxB \<and> fallback
                 then (case quality_search canvasToBlob ''image/webp'' maxB
                              (double 0.9) (double 0.12) (double 0.25) of
                         None \<Rightarrow> None
                       | Some (webpAttempts, Inl e) \<Rightarrow> Some (webpAttempts, jpegBlob, ''image/jpeg'')
                       | Some (webpAttempts, Inr (wQuality, webpBlob)) \<Rightarrow>
                           if real webpBlob \<le> maxB
                           then Some (webpAttempts, webpBlob, ''image/webp'')
                           else Some (webpAttempts, jpegBlob, ''image/jpeg''))
                 else Some ([], jpegBlob, ''image/jpeg'')) of
             None \<Rightarrow> None
           | Some (webpAttempts, finalBlob, fmt) \<Rightarrow>
               if real finalBlob > maxB then Some (jpegAttempts, webpAttempts, Inl SizeExceeded)
               else Some (jpegAttempts, webpAttempts,
                          Inr \<lparr>enc_blob = finalBlob, enc_format = fmt, enc_width = tSize, enc_height = tSize,
                               sizeBytes = finalBlob\<rparr>)))"

text \<open>
  \<open>cropResizeToBlob\<close>: the defaults, the canvas and its context, the bitmap, the drawing,
  and the search. The options a caller gives are doubles already, and so are the defaults:
  the literals 0.9, 0.08 and 0.25 denote the doubles nearest to them, and 128 and
  \<open>300 * 1024\<close> are exact. The result is \<open>None\<close> when the call never returns.
\<close>

definition cropResizeToBlob ::
  "Browser \<Rightarrow> BoundingBox \<Rightarrow> EncodeOptions \<Rightarrow> (error + EncodedImage) option" where
  "cropResizeToBlob browser bbox opts =
     (let tSize = or_default (targetSize opts) 128;
          maxB = or_default (maxBytes opts) (300 * 1024);
          qStart = or_default (qualityStart opts) (double 0.9);
          qStep = or_default (qualityStep opts) (double 0.08);
          minQ = or_default (minQuality opts) (double 0.25);
          fallback = or_default (webpFallback opts) True
      in if \<not> has_context browser then Some (Inl NoCanvasContext)
         else if \<not> bitmap_resolves browser then Some (Inl BitmapFailed)
         else map_option (\<lambda>(jpegAttempts, webpAttempts, res). res)
                (encode_search (toBlob browser (draw_crop bbox tSize))
                   tSize maxB qStart qStep minQ fallback))"

subsection \<open>Concrete browsers\<close>

text \<open>
  A browser whose every encoding has 400000 bytes, above the default budget of 307200;
  a browser whose encodings have 250000 bytes up to the quality 0.8 and 400000 above it;
  and the image the second one yields under the default options.
\<close>

definition bigBrowser :: Browser where
  "bigBrowser =
     \<lparr>has_context = True, bitmap_resolves = True, toBlob = (\<lambda>canvas type quality. Inr 400000)\<rparr>"

definition stepBrowser :: Browser where
  "stepBrowser =
     \<lparr>has_context = True, bitmap_resolves = True,
      toBlob = (\<lambda>canvas type quality. if quality \<le> 0.8 then Inr 250000 else Inr 400000)\<rparr>"

definition stepImage :: EncodedImage where
  "stepImage =
     \<lparr>enc_blob = 250000, enc_format = ''image/jpeg'', enc_width = 128, enc_height = 128,
      sizeBytes = 250000\<rparr>"

subsection \<open>Concrete qualities\<close>

text \<open>
  The qualities of the examples are multiples of \<open>pow2 (- 56)\<close>: \<open>fx m\<close> is the multiple
  \<open>m\<close>. The four lists hold the doubles the loop goes through while no blob meets the
  budget. From 0.9 by 0.08 down to 0.25, the default options: 0.9, 0.8200000000000001,
  0.7400000000000001, 0.6600000000000001, 0.5800000000000002, 0.5000000000000002,
  0.4200000000000002, 0.3400000000000002, 0.2600000000000002, 0.25. From 0.9 by 0.12 down
  to 0.25, the WebP fallback: 0.9, 0.78, 0.66, 0.54, 0.42000000000000004,
  0.30000000000000004, 0.25. From 0.9 by 0.1 down to 0.3: 0.9, 0.8, 0.7000000000000001,
  0.6000000000000001, 0.5000000000000001, 0.40000000000000013, 0.30000000000000016, 0.3.
  From 1 by 0.1 down to 0: 1, 0.9, 0.8, 0.7000000000000001, 0.6000000000000001,
  0.5000000000000001, 0.40000000000000013, 0.30000000000000016, 0.20000000000000015,
  0.10000000000000014, 1.3877787807814457e-16, 0.
\<close>

definition fx :: "int \<Rightarrow> real" where
  "fx m = real_of_int m / 2 ^ 56"

definition jpegQualities :: "real list" where
  "jpegQualities =
     [fx 64851834634135144,
      fx 59087227111100912,
      fx 53322619588066680,
      fx 47558012065032448,
      fx 41793404541998216,
      fx 36028797018963984,
      fx 30264189495929748,
      fx 24499581972895512,
      fx 18734974449861276,
      fx 18014398509481984]"

definition webpQualities :: "real list" where
  "webpQualities =
     [fx 64851834634135144,
      fx 56204923349583792,
      fx 47558012065032440,
      fx 38911100780481088,
      fx 30264189495929736,
      fx 21617278211378384,
      fx 18014398509481984]"

definition tenthQualities :: "real list" where
  "tenthQualities =
     [fx 64851834634135144,
      fx 57646075230342352,
      fx 50440315826549560,
      fx 43234556422756768,
      fx 36028797018963976,
      fx 28823037615171184,
      fx 21617278211378392,
      fx 21617278211378380]"

definition unitQualities :: "real list" where
  "unitQualities =
     [fx 72057594037927936,
      fx 64851834634135144,
      fx 57646075230342352,
      fx 50440315826549560,
      fx 43234556422756768,
      fx 36028797018963976,
      fx 28823037615171184,
      fx 21617278211378392,
      fx 14411518807585598,
      fx 7205759403792804,
      fx 10,
      0]"

section \<open>App.tsx: the capture cycle\<close>

datatype AppStatus = Idle | Detecting | Uploading | Error | Initializing

text \<open>The type \<open>ProcessedFace\<close>, with its metadata flattened; the blob is known by its size.\<close>

record ProcessedFace =
  face_blob :: nat
  meta_index :: nat
  meta_bbox :: "real list"
  meta_confidence :: real

text \<open>What \<open>analyzeFaces\<close> returns, as far as the cycle reads it.\<close>

record AnalysisResult =
  top3_aggregate :: "(string \<times> real) list"
  gemini_feedback :: "string option"

record ChatMessage =
  msg_id :: string
  msg_text :: string
  msg_timestamp :: string

text \<open>
  The state of the component \<open>App\<close> that the cycle reads and writes: the ref
  \<open>isUploadingRef\<close> (the in-flight guard) and the React state.
\<close>

record AppState =
  isUploadingRef :: bool
  status :: AppStatus
  error :: "error option"
  emotions :: "(string \<times> real) list option"
  lastUpload :: "string option"
  messages :: "ChatMessage list"
  isStarting :: bool

definition initialAppState :: AppState where
  "initialAppState =
     \<lparr>isUploadingRef = False, status = Initializing, error = None, emotions = None,
      lastUpload = None, messages = [], isStarting = False\<rparr>"

text \<open>A \<open>video\<close> element of the page, and the size of the frame it shows.\<close>

record VideoElement =
  offsetHeight :: real
  offsetWidth :: real
  readyState :: nat
  videoWidth :: real
  videoHeight :: real

text \<open>
  What the surroundings do during one cycle: the videos of the page, whether
  \<open>createImageBitmap\<close> resolves, whether the canvas of \<open>detectFaces\<close> gives a context, the
  outcome of the inference, the browser that encodes the faces, the outcome of the upload,
  the time of day and a fresh id.
\<close>

record CycleEnv =
  videos :: "VideoElement list"
  snapshot_resolves :: bool
  context2d :: bool
  inference :: "error + OutputTensor"
  page_browser :: Browser
  upload :: "error + AnalysisResult"
  clock :: string
  uuid :: string

text \<open>
  \<open>analyzeFaces\<close> of apiService.ts throws on an empty array of faces; the request itself
  is the outcome \<open>upload\<close> of the surroundings.
\<close>

definition analyzeFaces :: "CycleEnv \<Rightarrow> ProcessedFace list \<Rightarrow> string \<Rightarrow> error + AnalysisResult" where
  "analyzeFaces env faces contextText = (if faces = [] then Inl NoFaces else upload env)"

text \<open>
  \<open>videos.reduce\<close> without an initial value keeps the video of the largest area, the
  later one of two equal ones; there is none when the page has no video.
\<close>

definition largest_video :: "VideoElement list \<Rightarrow> VideoElement option" where
  "largest_video vs =
     (case vs of
        [] \<Rightarrow> None
      | v # rest \<Rightarrow>
          Some (fold (\<lambda>current prev.
                        if offsetHeight prev * offsetWidth prev >
                           offsetHeight current * offsetWidth current
                        then prev else current) rest v))"

text \<open>The detections ranked by confidence times area, the first eight of them.\<close>

definition sortedDetections :: "BoundingBox list \<Rightarrow> BoundingBox list" where
  "sortedDetections bboxes =
     take 8 (sort_key (\<lambda>b. - (confidence b * (box_w b * box_h b))) bboxes)"

text \<open>
  One promise of \<open>faceProcessingPromises\<close>: the face, or \<open>null\<close> when \<open>cropResizeToBlob\<close>
  throws; \<open>None\<close> outside when the call never returns.
\<close>

definition process_face :: "Browser \<Rightarrow> BoundingBox \<times> nat \<Rightarrow> ProcessedFace option option" where
  "process_face b = (\<lambda>(bbox, index).
     (case cropResizeToBlob b bbox noOptions of
        None \<Rightarrow> None
      | Some (Inl e) \<Rightarrow> Some None
      | Some (Inr img) \<Rightarrow>
          Some (Some \<lparr>face_blob = enc_blob img, meta_index = index,
                      meta_bbox = [box_x bbox, box_y bbox, box_w bbox, box_h bbox],
                      meta_confidence = confidence bbox\<rparr>)))"

text \<open>\<open>Promise.all\<close>: the results in order, once every promise has resolved.\<close>

fun promise_all :: "'a option list \<Rightarrow> 'a list option" where
  "promise_all [] = Some []"
| "promise_all (p # ps) =
     (case p of
        None \<Rightarrow> None
      | Some v \<Rightarrow> (case promise_all ps of None \<Rightarrow> None | Some vs \<Rightarrow> Some (v # vs)))"

text \<open>The two synchronous statements that open the \<open>try\<close> block and set the guard.\<close>

definition cycle_enter :: "AppState \<Rightarrow> AppState" where
  "cycle_enter st = st\<lparr>error := None, isUploadingRef := True\<rparr>"

text \<open>
  The \<open>try\<close> block of \<open>captureAndProcess\<close>. The result holds the service, the state, and
  the error thrown, if one was: \<open>None\<close> for a normal end (a \<open>return\<close> or the end of the
  block). It is \<open>None\<close> outside when the block never ends.
\<close>

definition cycle_try ::
  "CycleEnv \<Rightarrow> string \<Rightarrow> DetectionService \<Rightarrow> AppState \<Rightarrow>
   (DetectionService \<times> AppState \<times> error option) option" where
  "cycle_try env contextText svc st0 =
     (let st1 = cycle_enter st0 in
      (case largest_video (videos env) of
         None \<Rightarrow> Some (svc, st1\<lparr>isUploadingRef := False\<rparr>, None)
       | Some videoElement \<Rightarrow>
           if readyState videoElement < 2
           then Some (svc, st1\<lparr>isUploadingRef := False\<rparr>, None)
           else if \<not> snapshot_resolves env then Some (svc, st1, Some BitmapFailed)
           else
             (let st2 = st1\<lparr>status := Detecting\<rparr> in
              (case detectFaces svc (Inr (videoWidth videoElement, videoHeight videoElement))
                      (context2d env) (inference env) of
                 Inl e \<Rightarrow> Some (svc, st2, Some e)
               | Inr (svc', bboxes) \<Rightarrow>
                   if length bboxes = 0
                   then Some (svc', st2\<lparr>status := Idle, isUploadingRef := False\<rparr>, None)
                   else
                     (let detections = sortedDetections bboxes in
                      (case promise_all
                              (map (process_face (page_browser env))
                                 (zip detections [0..<length detections])) of
                         None \<Rightarrow> None
                       | Some results \<Rightarrow>
                           (let processedFaces = List.map_filter (\<lambda>f. f) results in
                            if length processedFaces = 0
                            then Some (svc', st2\<lparr>status := Idle, isUploadingRef := False\<rparr>, None)
                            else
                              (let st3 = st2\<lparr>status := Uploading\<rparr> in
                               (case analyzeFaces env processedFaces contextText of
                                  Inl e \<Rightarrow> Some (svc', st3, Some e)
                                | Inr result \<Rightarrow>
                                    Some (svc',
                                          st3\<lparr>emotions := Some (top3_aggregate result),
                                              lastUpload := Some (clock env),
                                              messages := messages st3 @
                                                [\<lparr>msg_id = uuid env,
                                                  msg_text = or_default (gemini_feedback result)
                                                               ''No feedback returned.'',
                                                  msg_timestamp = clock env\<rparr>],
                                              status := Idle,
                                              isStarting := False\<rparr>,
                                          None))))))))))"

text \<open>
  \<open>captureAndProcess\<close>: the test of the guard, which skips the cycle when an upload is in
  progress; the \<open>try\<close> block; the \<open>catch\<close> block, for an error thrown; and the \<open>finally\<close>
  block, which clears the guard.
\<close>

definition captureAndProcess ::
  "CycleEnv \<Rightarrow> string \<Rightarrow> DetectionService \<times> AppState \<Rightarrow> (DetectionService \<times> AppState) option" where
  "captureAndProcess env contextText = (\<lambda>(svc, st).
     if isUploadingRef st then Some (svc, st)
     else
       (case cycle_try env contextText svc st of
          None \<Rightarrow> None
        | Some (svc', st', thrown) \<Rightarrow>
            (let st'' = (case thrown of
                           None \<Rightarrow> st'
                         | Some e \<Rightarrow>
                             st'\<lparr>error := Some e, emotions := None, status := Error,
                                 isStarting := False\<rparr>)
             in Some (svc', st''\<lparr>isUploadingRef := False\<rparr>))))"

text \<open>
  Cycles one after the other, each with its own surroundings, as the capture loop awaits
  each cycle before the next: the states after each cycle, in order.
\<close>

fun capture_cycles ::
  "CycleEnv list \<Rightarrow> string \<Rightarrow> DetectionService \<times> AppState \<Rightarrow>
   (DetectionService \<times> AppState) list option" where
  "capture_cycles [] contextText w = Some []"
| "capture_cycles (env # envs) contextText w =
     (case captureAndProcess env contextText w of
        None \<Rightarrow> None
      | Some w' \<Rightarrow>
          (case capture_cycles envs contextText w' of
             None \<Rightarrow> None
           | Some ws \<Rightarrow> Some (w' # ws)))"

subsection \<open>Concrete cycles\<close>

text \<open>
  A tensor of five channels in which no proposal survives; a video of 64 by 64 pixels; and
  the surroundings of six cycles: one that uploads, and variants of it in which the page
  has no video, no box is detected, every encoding is too large, the upload fails, and the
  inference fails. \<open>readyService5\<close> is the service once a call has stored the channel
  count 5.
\<close>

definition quietTensor :: "real list" where
  "quietTensor = replicate (4 * 8400) 0 @ replicate 8400 (- 1)"

definition frontVideo :: VideoElement where
  "frontVideo =
     \<lparr>offsetHeight = 64, offsetWidth = 64, readyState = 4, videoWidth = 64, videoHeight = 64\<rparr>"

definition happyResult :: AnalysisResult where
  "happyResult = \<lparr>top3_aggregate = [(''happy'', 9 / 10)], gemini_feedback = None\<rparr>"

definition edgeOutput :: OutputTensor where
  "edgeOutput = \<lparr>dims = [1, 5, 8400], tdata = edgeTensor\<rparr>"

definition quietOutput :: OutputTensor where
  "quietOutput = \<lparr>dims = [1, 5, 8400], tdata = quietTensor\<rparr>"

definition uploadEnv :: CycleEnv where
  "uploadEnv =
     \<lparr>videos = [frontVideo], snapshot_resolves = True, context2d = True,
      inference = Inr edgeOutput,
      page_browser = stepBrowser, upload = Inr happyResult,
      clock = ''10:00:00'', uuid = ''id-1''\<rparr>"

definition noVideoEnv :: CycleEnv where
  "noVideoEnv = uploadEnv\<lparr>videos := []\<rparr>"

definition noBoxEnv :: CycleEnv where
  "noBoxEnv = uploadEnv\<lparr>inference := Inr quietOutput\<rparr>"

definition encodeFailEnv :: CycleEnv where
  "encodeFailEnv = uploadEnv\<lparr>page_browser := bigBrowser\<rparr>"

definition uploadFailEnv :: CycleEnv where
  "uploadFailEnv = uploadEnv\<lparr>upload := Inl UploadFailed\<rparr>"

definition inferenceFailEnv :: CycleEnv where
  "inferenceFailEnv = uploadEnv\<lparr>inference := Inl InferenceFailed\<rparr>"

definition readyService5 :: DetectionService where
  "readyService5 = readyService\<lparr>channels := 5\<rparr>"

text \<open>The face of the box \<open>edgeBox\<close>, and the states the six cycles lead through.\<close>

definition edgeFace :: ProcessedFace where
  "edgeFace =
     \<lparr>face_blob = 250000, meta_index = 0, meta_bbox = [632 / 10, 0, 1, 1], meta_confidence = 1 / 2\<rparr>"

definition idleState :: AppState where
  "idleState = initialAppState\<lparr>status := Idle\<rparr>"

definition uploadFailedState :: AppState where
  "uploadFailedState = initialAppState\<lparr>status := Error, error := Some UploadFailed\<rparr>"

definition uploadedState :: AppState where
  "uploadedState =
     initialAppState\<lparr>status := Idle, emotions := Some [(''happy'', 9 / 10)],
       lastUpload := Some ''10:00:00'',
       messages := [\<lparr>msg_id = ''id-1'', msg_text = ''No feedback returned.'',
                     msg_timestamp = ''10:00:00''\<rparr>]\<rparr>"

definition inferenceFailedState :: AppState where
  "inferenceFailedState =
     uploadedState\<lparr>status := Error, error := Some InferenceFailed, emotions := None\<rparr>"

definition quietState :: AppState where
  "quietState = inferenceFailedState\<lparr>status := Idle, error := None\<rparr>"

section \<open>Properties of prepareGrids\<close>

lemma push_cell_proposals:
  "aligned svc \<Longrightarrow>
     aligned (push_cell s y x svc) \<and>
     proposals_of (push_cell s y x svc) = proposals_of svc @ [(s, x, y)]"
  by (simp add: aligned_def push_cell_def proposals_of_def)

lemma row_proposals:
  "aligned svc \<Longrightarrow>
     aligned (fold (push_cell s y) xs svc) \<and>
     proposals_of (fold (push_cell s y) xs svc) = proposals_of svc @ map (\<lambda>x. (s, x, y)) xs"
  by (induction xs arbitrary: svc) (simp_all add: push_cell_proposals)

lemma rows_proposals:
  "aligned svc \<Longrightarrow>
     aligned (fold (\<lambda>y. fold (push_cell s y) xs) ys svc) \<and>
     proposals_of (fold (\<lambda>y. fold (push_cell s y) xs) ys svc) =
       proposals_of svc @ concat (map (\<lambda>y. map (\<lambda>x. (s, x, y)) xs) ys)"
  by (induction ys arbitrary: svc) (simp_all add: row_proposals)

lemma grids_of_stride_proposals:
  "aligned svc \<Longrightarrow>
     aligned (grids_of_stride W H s svc) \<and>
     proposals_of (grids_of_stride W H s svc) =
       proposals_of svc @ concat (map (\<lambda>y. map (\<lambda>x. (s, x, y)) [0..<W div s]) [0..<H div s])"
  by (simp add: grids_of_stride_def rows_proposals)

lemma strides_proposals:
  "aligned svc \<Longrightarrow>
     aligned (fold (grids_of_stride W H) strides svc) \<and>
     proposals_of (fold (grids_of_stride W H) strides svc) =
       proposals_of svc @ raster_proposals strides W H"
  by (induction strides arbitrary: svc)
     (simp_all add: grids_of_stride_proposals raster_proposals_def)

lemma length_raster_proposals:
  "length (raster_proposals strides W H) = (\<Sum>s\<leftarrow>strides. (W div s) * (H div s))"
  by (induction strides) (simp_all add: raster_proposals_def length_concat comp_def sum_list_triv)

lemma aligned_length: "aligned svc \<Longrightarrow> length (gridX svc) = length (proposals_of svc)"
  by (simp add: aligned_def proposals_of_def)

text \<open>
  Claim C5. For every model width \<open>W\<close>, height \<open>H\<close> and ordered list of positive strides,
  the grid build returns, and the proposals it stores are, for each stride \<open>s\<close> in the
  given order, the triples \<open>(s, x, y)\<close> for \<open>y\<close> from 0 to \<open>floor (H / s) - 1\<close> and \<open>x\<close>
  from 0 to \<open>floor (W / s) - 1\<close>, in raster order with \<open>x\<close> innermost; their number is
  the sum over the strides of \<open>floor (W / s) * floor (H / s)\<close>. Here \<open>W\<close> is the program's
  \<open>modelWidth\<close> and \<open>H\<close> its \<open>modelHeight\<close>.
\<close>

theorem prepareGrids_raster:
  assumes "modelInputShape svc = [n, c, W, H]" and "0 \<notin> set strides"
  shows "map_option proposals_of (prepareGridsFor strides svc) =
           Some (raster_proposals strides W H) \<and>
         map_option numProposals (prepareGridsFor strides svc) =
           Some (\<Sum>s\<leftarrow>strides. (W div s) * (H div s))"
proof -
  let ?svc1 = "svc\<lparr>gridX := [], gridY := [], stridePerProposal := []\<rparr>"
  let ?svc2 = "fold (grids_of_stride W H) strides ?svc1"
  have a: "aligned ?svc1" and p: "proposals_of ?svc1 = []"
    by (simp_all add: aligned_def proposals_of_def)
  have r: "prepareGridsFor strides svc = Some (?svc2\<lparr>numProposals := length (gridX ?svc2)\<rparr>)"
    using assms by (simp add: prepareGridsFor_def Let_def)
  have "proposals_of ?svc2 = raster_proposals strides W H"
    using strides_proposals [OF a, of W H strides] p by simp
  moreover have "length (gridX ?svc2) = length (proposals_of ?svc2)"
    using strides_proposals [OF a, of W H strides] aligned_length by blast
  ultimately show ?thesis
    using r by (simp add: proposals_of_def length_raster_proposals)
qed

theorem prepareGrids_raster_witness:
  "modelInputShape newDetectionService = [1, 3, 640, 640] \<and> 0 \<notin> set STRIDES \<and>
   map_option proposals_of (prepareGrids newDetectionService) =
     Some (raster_proposals STRIDES 640 640) \<and>
   map_option numProposals (prepareGrids newDetectionService) = Some 8400 \<and>
   map_option proposals_of (prepareGridsFor [2, 1] (newDetectionService\<lparr>modelInputShape := [1, 3, 2, 2]\<rparr>)) =
     Some [(2, 0, 0), (1, 0, 0), (1, 1, 0), (1, 0, 1), (1, 1, 1)]"
proof -
  have s: "modelInputShape newDetectionService = [1, 3, 640, 640]" and z: "0 \<notin> set STRIDES"
    by (simp_all add: newDetectionService_def MODEL_INPUT_SHAPE_def STRIDES_def)
  have s': "modelInputShape (newDetectionService\<lparr>modelInputShape := [1, 3, 2, 2]\<rparr>) = [1, 3, 2, 2]"
    and z': "0 \<notin> set [2, 1::nat]"
    by simp_all
  have u: "[0..<2] = [0, 1]"
    by (simp add: upt_rec)
  show ?thesis
    using s z prepareGrids_raster [OF s z] prepareGrids_raster [OF s' z']
    by (simp add: prepareGrids_def STRIDES_def raster_proposals_def u)
qed

section \<open>Properties of nonMaxSuppression\<close>

lemma splice_loop_filter:
  "n \<le> length xs \<Longrightarrow>
   splice_loop c t xs n = filter (keeps c t) (take n xs) @ drop n xs"
proof (induction n arbitrary: xs)
  case 0
  show ?case by simp
next
  case (Suc n)
  then have n: "n < length xs" by simp
  show ?case
  proof (cases "iou c (xs ! n) > t")
    case True
    let ?ys = "take n xs @ drop (Suc n) xs"
    have "n \<le> length ?ys" using n by simp
    from Suc.IH [OF this] have "splice_loop c t ?ys n = filter (keeps c t) (take n xs) @ drop (Suc n) xs"
      using n by simp
    moreover have "\<not> keeps c t (xs ! n)" using True by (simp add: keeps_def)
    ultimately show ?thesis using True n
      by (simp add: take_Suc_conv_app_nth)
  next
    case False
    have "n \<le> length xs" using n by simp
    moreover have "keeps c t (xs ! n)" using False by (simp add: keeps_def)
    ultimately show ?thesis using Suc.IH [of xs] False n
      by (simp add: take_Suc_conv_app_nth Cons_nth_drop_Suc)
  qed
qed

lemma splice_loop_all: "splice_loop c t xs (length xs) = filter (keeps c t) xs"
  by (simp add: splice_loop_filter)

lemma nms_loop_greedy: "nms_loop t xs selected = selected @ greedy t xs"
  by (induction t xs selected rule: nms_loop.induct) (simp_all add: splice_loop_all)

lemma set_greedy: "set (greedy t xs) \<subseteq> set xs"
  by (induction t xs rule: greedy.induct) auto

lemma greedy_separated: "sorted_wrt (\<lambda>a b. keeps a t b) (greedy t xs)"
proof (induction t xs rule: greedy.induct)
  case (1 t)
  show ?case by simp
next
  case (2 t c xs)
  have "\<forall>b\<in>set (greedy t (filter (keeps c t) xs)). keeps c t b"
    using set_greedy [of t "filter (keeps c t) xs"] by auto
  with 2 show ?case by simp
qed

lemma greedy_sorted_wrt: "sorted_wrt R xs \<Longrightarrow> sorted_wrt R (greedy t xs)"
proof (induction t xs rule: greedy.induct)
  case (1 t)
  show ?case by simp
next
  case (2 t c xs)
  have "set (greedy t (filter (keeps c t) xs)) \<subseteq> set xs"
    using set_greedy [of t "filter (keeps c t) xs"] by auto
  with 2 show ?case by (auto simp: sorted_wrt_filter)
qed

lemma greedy_fixed: "sorted_wrt (\<lambda>a b. keeps a t b) xs \<Longrightarrow> greedy t xs = xs"
proof (induction xs)
  case Nil
  show ?case by simp
next
  case (Cons c xs)
  then have "filter (keeps c t) xs = xs"
    by (simp add: filter_id_conv)
  with Cons show ?case by simp
qed

lemma iou_commute: "iou a b = iou b a"
  by (simp add: iou_def Let_def max.commute min.commute add.commute)


lemma iou_ratio:
  "iou a b =
     (if intersectionArea a b \<le> 0 \<or> area a + area b - intersectionArea a b \<le> 0 then 0
      else intersectionArea a b / (area a + area b - intersectionArea a b))"
  by (simp add: iou_def intersectionArea_def area_def Let_def)

lemma nonMaxSuppression_greedy:
  "nonMaxSuppression boxes t =
     (if length boxes \<le> 1 then boxes else greedy t (sort_key (\<lambda>b. - confidence b) boxes))"
  by (simp add: nonMaxSuppression_def nms_loop_greedy)

lemma nonMaxSuppression_sorted_wrt:
  "sorted_wrt (\<lambda>a b. keeps a t b) (nonMaxSuppression boxes t)"
proof (cases "length boxes \<le> 1")
  case True
  then have "boxes = [] \<or> (\<exists>b. boxes = [b])"
    by (cases boxes) auto
  then show ?thesis
    by (auto simp: nonMaxSuppression_greedy)
next
  case False
  then show ?thesis
    by (simp add: nonMaxSuppression_greedy greedy_separated)
qed

lemma iou_AB: "iou boxA boxB = 81 / 119"
  by (simp add: iou_def boxA_def boxB_def)
lemma iou_AC: "iou boxA boxC = 0"
  by (simp add: iou_def boxA_def boxC_def)

lemma nms_example: "nonMaxSuppression [boxB, boxC, boxA] NMS_THRESHOLD = [boxA, boxC]"
proof -
  have c: "confidence boxA = 9 / 10" "confidence boxB = 8 / 10" "confidence boxC = 5 / 10"
    by (simp_all add: boxA_def boxB_def boxC_def)
  show ?thesis
    by (simp add: nonMaxSuppression_def splice_loop_all keeps_def iou_AB iou_AC NMS_THRESHOLD_def c)
qed

text \<open>
  Claim C3. For every list of boxes and every threshold (the program passes
  \<open>NMS_THRESHOLD\<close>, 0.45), any two boxes at distinct positions of the output of
  \<open>nonMaxSuppression\<close> have an intersection over union of at most the threshold, where
  the intersection over union of two boxes is the area of their intersection divided by
  the sum of their areas minus that of the intersection, and 0 when they do not overlap or
  that difference is not positive.
\<close>

theorem nonMaxSuppression_separated:
  assumes "i < length (nonMaxSuppression boxes iouThreshold)"
    and "j < length (nonMaxSuppression boxes iouThreshold)"
    and "i \<noteq> j"
  shows "iou (nonMaxSuppression boxes iouThreshold ! i) (nonMaxSuppression boxes iouThreshold ! j)
           \<le> iouThreshold \<and>
         iou a b =
           (if intersectionArea a b \<le> 0 \<or> area a + area b - intersectionArea a b \<le> 0 then 0
            else intersectionArea a b / (area a + area b - intersectionArea a b))"
proof -
  let ?out = "nonMaxSuppression boxes iouThreshold"
  have s: "\<And>k l. k < l \<Longrightarrow> l < length ?out \<Longrightarrow> keeps (?out ! k) iouThreshold (?out ! l)"
    using nonMaxSuppression_sorted_wrt [of iouThreshold boxes]
    by (simp add: sorted_wrt_iff_nth_less)
  have "iou (?out ! i) (?out ! j) \<le> iouThreshold"
  proof (cases "i < j")
    case True
    from s [OF True assms(2)] show ?thesis by (simp add: keeps_def)
  next
    case False
    with assms(3) have "j < i" by simp
    from s [OF this assms(1)] have "iou (?out ! j) (?out ! i) \<le> iouThreshold"
      by (simp add: keeps_def)
    then show ?thesis by (simp add: iou_commute [of "?out ! i"])
  qed
  then show ?thesis
    using iou_ratio [of a b] by blast
qed

theorem nonMaxSuppression_separated_witness:
  "nonMaxSuppression [boxB, boxC, boxA] NMS_THRESHOLD = [boxA, boxC] \<and>
   iou boxA boxB > NMS_THRESHOLD \<and>
   iou boxA boxC \<le> NMS_THRESHOLD \<and> iou boxC boxA \<le> NMS_THRESHOLD"
proof -
  have e: "nonMaxSuppression [boxB, boxC, boxA] NMS_THRESHOLD = [boxA, boxC]"
    by (rule nms_example)
  have "iou boxA boxC \<le> NMS_THRESHOLD"
    using nonMaxSuppression_separated [of 0 "[boxB, boxC, boxA]" NMS_THRESHOLD 1 boxA boxC]
    by (simp add: e)
  moreover have "iou boxC boxA \<le> NMS_THRESHOLD"
    using nonMaxSuppression_separated [of 1 "[boxB, boxC, boxA]" NMS_THRESHOLD 0 boxA boxC]
    by (simp add: e)
  moreover have "iou boxA boxB > NMS_THRESHOLD"
    by (simp add: iou_AB NMS_THRESHOLD_def)
  ultimately show ?thesis
    using e by simp
qed

text \<open>
  Claim C9. \<open>nonMaxSuppression\<close> is idempotent: for every list of boxes, applying it to
  its own output returns that output again, as a list and so as a set.
\<close>

theorem nonMaxSuppression_idempotent:
  "nonMaxSuppression (nonMaxSuppression boxes iouThreshold) iouThreshold =
     nonMaxSuppression boxes iouThreshold \<and>
   set (nonMaxSuppression (nonMaxSuppression boxes iouThreshold) iouThreshold) =
     set (nonMaxSuppression boxes iouThreshold)"
proof -
  let ?f = "\<lambda>b. - confidence b"
  let ?out = "nonMaxSuppression boxes iouThreshold"
  have fixed: "greedy iouThreshold ?out = ?out"
    by (rule greedy_fixed) (rule nonMaxSuppression_sorted_wrt)
  have "sorted (map ?f ?out)"
  proof (cases "length boxes \<le> 1")
    case True
    then have "boxes = [] \<or> (\<exists>b. boxes = [b])"
      by (cases boxes) auto
    then show ?thesis
      by (auto simp: nonMaxSuppression_greedy)
  next
    case False
    have "sorted_wrt (\<lambda>a b. ?f a \<le> ?f b) (sort_key ?f boxes)"
      using sorted_sort_key [of ?f boxes] by (simp only: sorted_map)
    then have "sorted_wrt (\<lambda>a b. ?f a \<le> ?f b) (greedy iouThreshold (sort_key ?f boxes))"
      by (rule greedy_sorted_wrt)
    with False show ?thesis
      by (simp add: nonMaxSuppression_greedy sorted_map)
  qed
  then have "sort_key ?f ?out = ?out"
    by (rule sort_key_id_if_sorted)
  with fixed have "nonMaxSuppression ?out iouThreshold = ?out"
    by (simp add: nonMaxSuppression_greedy [of ?out])
  then show ?thesis by simp
qed

section \<open>Properties of the decoder\<close>

subsection \<open>The loop body and the specification's formulas\<close>

lemma sigmoid_pos: "0 < sigmoid v"
  by (simp add: sigmoid_def add_pos_pos)

lemma fold_max:
  "fold (\<lambda>c m. max m (f c)) cs (m::real) = Max (insert m (f ` set cs))"
proof (induction cs arbitrary: m)
  case Nil
  show ?case by simp
next
  case (Cons c cs)
  have "Max (insert (max m (f c)) (f ` set cs)) = Max (insert m (insert (f c) (f ` set cs)))"
  proof (cases "set cs = {}")
    case True
    then show ?thesis by simp
  next
    case False
    then have "finite (f ` set cs)" and "f ` set cs \<noteq> {}" by simp_all
    then show ?thesis by (simp add: max.assoc)
  qed
  with Cons [of "max m (f c)"] show ?case
    by simp
qed

lemma class_fold:
  "fold (\<lambda>c maxClassScore. let score = f c in if score > maxClassScore then score else maxClassScore) cs m
     = Max (insert (m::real) (f ` set cs))"
proof -
  have "(\<lambda>c maxClassScore. let score = f c in if score > maxClassScore then score else maxClassScore)
          = (\<lambda>c m. max m (f c))"
    by (auto simp: fun_eq_iff Let_def max_def)
  then show ?thesis by (simp only: fold_max)
qed

lemma classScore_spec:
  "(if numChannels > 5
    then fold (\<lambda>c maxClassScore.
                 let score = sigmoid (output ! (c * numProposals svc + i))
                 in if score > maxClassScore then score else maxClassScore)
           [5..<numChannels] 0
    else 1) = spec_classScore svc output numChannels i"
proof (cases "numChannels > 5")
  case False
  then show ?thesis by (simp add: spec_classScore_def)
next
  case True
  let ?S = "(\<lambda>c. sigmoid (raw svc output c i)) ` {5..<numChannels}"
  have ne: "?S \<noteq> {}" and fin: "finite ?S" using True by simp_all
  have "Max ?S \<in> ?S" by (rule Max_in [OF fin ne])
  then have "0 < Max ?S" using sigmoid_pos by auto
  then have "Max (insert 0 ?S) = Max ?S"
    using ne fin by (simp add: max_def)
  moreover have "fold (\<lambda>c maxClassScore.
                 let score = sigmoid (output ! (c * numProposals svc + i))
                 in if score > maxClassScore then score else maxClassScore)
           [5..<numChannels] 0 = Max (insert 0 ?S)"
    by (simp only: class_fold raw_def set_upt)
  ultimately show ?thesis using True
    by (simp only: spec_classScore_def if_True)
qed

lemma decode_step_spec:
  "decode_step svc output imageWidth imageHeight scaleX scaleY numChannels i boxes =
     (if spec_confidence svc output numChannels i < CONFIDENCE_THRESHOLD then boxes
      else boxes @ [to_image_box (spec_xCenter svc output i) (spec_yCenter svc output i)
                      (spec_width svc output i) (spec_height svc output i)
                      (spec_confidence svc output numChannels i)
                      scaleX scaleY imageWidth imageHeight])"
proof -
  note cs = classScore_spec [of numChannels "output" svc i, unfolded Let_def]
  show ?thesis
    unfolding decode_step_def Let_def cs
    by (simp add: spec_confidence_def spec_xCenter_def spec_yCenter_def spec_width_def
      spec_height_def to_image_box_def raw_def)
qed

lemma fold_decode_step:
  "fold (decode_step svc output imageWidth imageHeight
           (imageWidth / real (modelInputShape svc ! 2)) (imageHeight / real (modelInputShape svc ! 3))
           numChannels) is boxes =
     boxes @ map (spec_box svc output imageWidth imageHeight numChannels)
               (filter (survives svc output numChannels) is)"
  by (induction "is" arbitrary: boxes) (simp_all add: decode_step_spec spec_box_def survives_def)

lemma processOutput_spec:
  "processOutput svc output imageWidth imageHeight =
     (if numProposals svc = 0 \<or> channel_count svc output < 5 then []
      else nonMaxSuppression
             (map (spec_box svc output imageWidth imageHeight (channel_count svc output))
                (filter (survives svc output (channel_count svc output)) [0..<numProposals svc]))
             NMS_THRESHOLD)"
  by (simp add: processOutput_def Let_def fold_decode_step channel_count_def)

lemma set_nonMaxSuppression: "set (nonMaxSuppression boxes t) \<subseteq> set boxes"
  using set_greedy [of t "sort_key (\<lambda>b. - confidence b) boxes"]
  by (simp add: nonMaxSuppression_greedy)

lemma processOutput_member:
  assumes "b \<in> set (processOutput svc output imageWidth imageHeight)"
  shows "\<exists>i<numProposals svc.
           survives svc output (channel_count svc output) i \<and>
           b = spec_box svc output imageWidth imageHeight (channel_count svc output) i"
proof -
  let ?n = "channel_count svc output"
  let ?boxes = "map (spec_box svc output imageWidth imageHeight ?n)
                  (filter (survives svc output ?n) [0..<numProposals svc])"
  from assms have "b \<in> set (nonMaxSuppression ?boxes NMS_THRESHOLD)"
    by (simp add: processOutput_spec split: if_splits)
  with set_nonMaxSuppression have "b \<in> set ?boxes" by blast
  then show ?thesis by auto
qed

lemma confidence_spec_box:
  "confidence (spec_box svc output imageWidth imageHeight n i) = spec_confidence svc output n i"
  by (simp add: spec_box_def to_image_box_def)

lemma clamp_bounds: "lo \<le> clamp v lo hi \<and> clamp v lo hi \<le> max lo hi"
  by (auto simp: clamp_def max_def min_def)

subsection \<open>The service after initialize, and the tensor at the edge\<close>

lemma fold_keeps: "(\<And>x s. g (f x s) = g s) \<Longrightarrow> g (fold f xs s) = g s"
  by (induction xs arbitrary: s) simp_all

lemma rest_fields_grids: "rest_fields (fold (grids_of_stride W H) strides svc) = rest_fields svc"
proof -
  have 1: "\<And>s y x svc. rest_fields (push_cell s y x svc) = rest_fields svc"
    by (simp add: rest_fields_def push_cell_def)
  have 2: "\<And>s y xs svc. rest_fields (fold (push_cell s y) xs svc) = rest_fields svc"
    by (rule fold_keeps) (rule 1)
  have 3: "\<And>s xs ys svc. rest_fields (fold (\<lambda>y. fold (push_cell s y) xs) ys svc) = rest_fields svc"
    by (rule fold_keeps) (rule 2)
  have 4: "\<And>s svc. rest_fields (grids_of_stride W H s svc) = rest_fields svc"
    by (simp add: grids_of_stride_def 3)
  show ?thesis
    by (rule fold_keeps) (rule 4)
qed

lemma arrays_of_proposals:
  assumes "aligned svc"
  shows "stridePerProposal svc = map fst (proposals_of svc)"
    and "gridX svc = map (fst \<circ> snd) (proposals_of svc)"
    and "gridY svc = map (snd \<circ> snd) (proposals_of svc)"
  using assms
  by (simp_all add: aligned_def proposals_of_def flip: map_map)

lemma length_raster_ready: "length (raster_proposals STRIDES 640 640) = 8400"
  by (simp add: length_raster_proposals STRIDES_def)

lemma initialize_ready: "initialize True True newDetectionService = Some (Inr readyService)"
proof -
  let ?svc1 = "newDetectionService\<lparr>session := True, gridX := [], gridY := [], stridePerProposal := []\<rparr>"
  let ?svc2 = "fold (grids_of_stride 640 640) STRIDES ?svc1"
  have a: "aligned ?svc1" and p: "proposals_of ?svc1 = []"
    by (simp_all add: aligned_def proposals_of_def)
  from strides_proposals [OF a, of 640 640 STRIDES] p
  have a2: "aligned ?svc2" and p2: "proposals_of ?svc2 = raster_proposals STRIDES 640 640"
    by simp_all
  have r: "rest_fields ?svc2 = (True, MODEL_INPUT_SHAPE, 0, 0)"
    by (simp add: rest_fields_grids) (simp add: rest_fields_def newDetectionService_def)
  have l: "length (gridX ?svc2) = 8400"
    using aligned_length [OF a2] p2 length_raster_ready by simp
  obtain s m n gx gy st c where e: "?svc2 = \<lparr>session = s, modelInputShape = m, numProposals = n,
      gridX = gx, gridY = gy, stridePerProposal = st, channels = c\<rparr>"
    by (cases ?svc2)
  have "?svc2\<lparr>numProposals := 8400\<rparr> = readyService"
    using r arrays_of_proposals [OF a2] p2
    by (simp add: e rest_fields_def readyService_def)
  moreover have "prepareGrids (newDetectionService\<lparr>session := True\<rparr>) = Some (?svc2\<lparr>numProposals := length (gridX ?svc2)\<rparr>)"
    by (simp add: prepareGrids_def prepareGridsFor_def Let_def newDetectionService_def
        MODEL_INPUT_SHAPE_def STRIDES_def)
  ultimately show ?thesis
    by (simp add: initialize_def l) (simp add: newDetectionService_def)
qed

lemma raster_79: "raster_proposals STRIDES 640 640 ! 79 = (8, 79, 0)"
proof -
  have d: "(640::nat) div 8 = 80" by simp
  have u: "[0..<80] = 0 # [Suc 0..<80]"
    by (rule upt_conv_Cons) simp
  have "raster_proposals STRIDES 640 640 =
          map (\<lambda>x. (8, x, 0)) [0..<80] @
          (concat (map (\<lambda>y. map (\<lambda>x. (8, x, y)) [0..<80]) [Suc 0..<80]) @
           raster_proposals [16, 32] 640 640)"
    unfolding raster_proposals_def STRIDES_def list.map concat.simps d
    by (subst (2) u) simp
  then show ?thesis
    by (simp add: nth_append)
qed

lemma ready_fields:
  "numProposals readyService = 8400" "channels readyService = 0"
  "modelInputShape readyService ! 2 = 640" "modelInputShape readyService ! 3 = 640"
  "gridX readyService ! 79 = 79" "gridY readyService ! 79 = 0"
  "stridePerProposal readyService ! 79 = 8"
  by (simp_all add: readyService_def MODEL_INPUT_SHAPE_def length_raster_ready raster_79)

lemma length_edgeTensor: "length edgeTensor = 42000"
  by (simp add: edgeTensor_def)

lemma edge_box_channels: "c < 4 \<Longrightarrow> i < 8400 \<Longrightarrow> edgeTensor ! (c * 8400 + i) = 0"
proof -
  assume "c < 4" and "i < 8400"
  then have "c * 8400 + i < 4 * 8400" by simp
  then show ?thesis
    by (simp add: edgeTensor_def nth_append)
qed

lemma edge_objectness: "i < 8400 \<Longrightarrow> edgeTensor ! (4 * 8400 + i) = (if i = 79 then 0 else - 1)"
proof -
  assume i: "i < 8400"
  have "edgeTensor ! (4 * 8400 + i) = (replicate 79 (- 1) @ [0] @ replicate 8320 (- 1)) ! i"
    unfolding edgeTensor_def
    using nth_append_length_plus [of "replicate (4 * 8400) (0::real)" _ i] by simp
  also have "\<dots> = (if i = 79 then 0 else - 1)"
    using i by (auto simp: nth_append nth_Cons')
  finally show ?thesis .
qed

lemma sigmoid_0: "sigmoid 0 = 1 / 2"
  by (simp add: sigmoid_def)

lemma sigmoid_minus_1: "sigmoid (- 1) \<le> 1 / 3"
proof -
  have "2 \<le> exp (1::real)"
    using exp_ge_add_one_self [of "1::real"] by simp
  then show ?thesis
    by (simp add: sigmoid_def field_simps)
qed

lemma survives_edge:
  assumes "i < 8400"
  shows "survives readyService edgeTensor 5 i \<longleftrightarrow> i = 79"
proof -
  have "spec_confidence readyService edgeTensor 5 i = sigmoid (if i = 79 then 0 else - 1)"
    using edge_objectness [OF assms]
    by (simp add: spec_confidence_def spec_classScore_def raw_def ready_fields)
  then show ?thesis
    using sigmoid_minus_1
    by (simp add: survives_def CONFIDENCE_THRESHOLD_def sigmoid_0)
qed

lemma filter_upt_single:
  assumes "k < n" and "P k" and "\<And>i. i < n \<Longrightarrow> i \<noteq> k \<Longrightarrow> \<not> P i"
  shows "filter P [0..<n] = [k]"
proof -
  have "[0..<n] = [0..<k] @ [k] @ [Suc k..<n]"
  proof -
    from assms(1) obtain m where n: "n = k + m"
      using less_imp_add_positive by blast
    have "[0..<k + m] = [0..<k] @ [k..<k + m]"
      by (rule upt_add_eq_append) simp
    moreover have "[k..<n] = k # [Suc k..<n]"
      using assms(1) by (rule upt_conv_Cons)
    ultimately show ?thesis
      by (simp add: n)
  qed
  moreover have "filter P [0..<k] = []" and "filter P [Suc k..<n] = []"
    using assms by (auto simp: filter_empty_conv)
  ultimately show ?thesis
    using assms(2) by simp
qed

lemma spec_box_edge: "spec_box readyService edgeTensor 64 64 5 79 = edgeBox"
proof -
  have r: "raw readyService edgeTensor 0 79 = 0" "raw readyService edgeTensor 1 79 = 0"
      "raw readyService edgeTensor 2 79 = 0" "raw readyService edgeTensor 3 79 = 0"
      "raw readyService edgeTensor 4 79 = 0" "raw readyService edgeTensor (Suc 0) 79 = 0"
    using edge_box_channels [of 0 79] edge_box_channels [of 1 79] edge_box_channels [of 2 79]
      edge_box_channels [of 3 79] edge_objectness [of 79] edge_box_channels [of "Suc 0" 79]
    by (simp_all add: raw_def ready_fields)
  show ?thesis
    by (simp add: spec_box_def to_image_box_def spec_xCenter_def spec_yCenter_def spec_width_def
        spec_height_def spec_confidence_def spec_classScore_def r ready_fields sigmoid_0
        clamp_def edgeBox_def)
qed

lemma processOutput_edge: "processOutput readyService edgeTensor 64 64 = [edgeBox]"
proof -
  have c: "channel_count readyService edgeTensor = 5"
    by (simp add: channel_count_def ready_fields length_edgeTensor)
  have f: "filter (survives readyService edgeTensor 5) [0..<8400] = [79]"
    by (rule filter_upt_single) (simp_all add: survives_edge)
  show ?thesis
    by (simp add: processOutput_spec c ready_fields f spec_box_edge nonMaxSuppression_def)
qed

lemma sigmoid_ln_9: "sigmoid (ln 9) = 9 / 10"
  by (simp add: sigmoid_def exp_minus)

lemma channel_count_edge: "channel_count readyService edgeTensor = 5"
  by (simp add: channel_count_def ready_fields length_edgeTensor)

lemma spec_confidence_edge_0: "spec_confidence readyService edgeTensor 5 0 \<le> 1 / 3"
  using edge_objectness [of 0] sigmoid_minus_1
  by (simp add: spec_confidence_def spec_classScore_def raw_def ready_fields)

lemma ready_prepared: "grids_prepared readyService"
  by (simp add: grids_prepared_def readyService_def length_raster_ready MODEL_INPUT_SHAPE_def)

lemma ready_in_range: "reads_in_range readyService edgeTensor"
  by (simp add: reads_in_range_def ready_prepared channel_count_edge length_edgeTensor
      ready_fields)

lemma cell_prepared: "grids_prepared cellService"
  by (simp add: grids_prepared_def cellService_def)

subsection \<open>Claims about the decoder\<close>

text \<open>
  Claim C2, as amended. For every tensor that holds a number for every read and every
  image whose width and height are not negative, each box \<open>processOutput\<close> returns has \<open>0 \<le> x \<le> imageWidth\<close>,
  \<open>0 \<le> y \<le> imageHeight\<close>, \<open>1 \<le> w \<le> max 1 imageWidth\<close> and
  \<open>1 \<le> h \<le> max 1 imageHeight\<close>: the corner lies in the image and each side is clamped
  on its own, so that \<open>x + w\<close> may exceed the width and \<open>y + h\<close> the height.
\<close>

theorem processOutput_clamped:
  assumes "b \<in> set (processOutput svc output imageWidth imageHeight)"
    and "0 \<le> imageWidth" and "0 \<le> imageHeight"
    and "reads_in_range svc output"
  shows "0 \<le> box_x b \<and> box_x b \<le> imageWidth \<and> 0 \<le> box_y b \<and> box_y b \<le> imageHeight \<and>
         1 \<le> box_w b \<and> box_w b \<le> max 1 imageWidth \<and>
         1 \<le> box_h b \<and> box_h b \<le> max 1 imageHeight"
proof -
  from processOutput_member [OF assms(1)] obtain i where
    "b = spec_box svc output imageWidth imageHeight (channel_count svc output) i"
    by blast
  then show ?thesis
    using assms(2,3)
      clamp_bounds [of 0 _ imageWidth] clamp_bounds [of 0 _ imageHeight]
      clamp_bounds [of 1 _ imageWidth] clamp_bounds [of 1 _ imageHeight]
    by (simp add: spec_box_def to_image_box_def)
qed

theorem processOutput_clamped_witness:
  "edgeBox \<in> set (processOutput readyService edgeTensor 64 64) \<and>
   reads_in_range readyService edgeTensor \<and>
   box_x edgeBox = 632 / 10 \<and> box_w edgeBox = 1 \<and>
   0 \<le> box_x edgeBox \<and> box_x edgeBox \<le> 64 \<and> 0 \<le> box_y edgeBox \<and> box_y edgeBox \<le> 64 \<and>
   1 \<le> box_w edgeBox \<and> box_w edgeBox \<le> 64 \<and> 1 \<le> box_h edgeBox \<and> box_h edgeBox \<le> 64"
proof -
  have m: "edgeBox \<in> set (processOutput readyService edgeTensor 64 64)"
    by (simp add: processOutput_edge)
  from processOutput_clamped [OF m _ _ ready_in_range] m ready_in_range show ?thesis
    by (simp add: edgeBox_def)
qed

text \<open>
  Claim C2 as stated fails: for the service after \<open>initialize\<close>, the tensor \<open>edgeTensor\<close>
  and an image of 64 by 64 pixels, the one box returned has \<open>x = 63.2\<close> and \<open>w = 1\<close>, and
  \<open>x + w\<close> exceeds the width 64.
\<close>

theorem processOutput_inside_counterexample:
  "processOutput readyService edgeTensor 64 64 = [edgeBox] \<and>
   \<not> list_all (inside_image 64 64) (processOutput readyService edgeTensor 64 64)"
  by (simp add: processOutput_edge inside_image_def edgeBox_def)

text \<open>
  Claim C4. For every tensor that holds a number for every read, every box
  \<open>processOutput\<close> returns has a confidence of at least
  \<open>CONFIDENCE_THRESHOLD\<close> and is the box of a proposal whose confidence (the sigmoid of the
  raw objectness times the best class score) is at least that threshold; and for every
  proposal \<open>i\<close> whose confidence is strictly below the threshold, the box decoded from
  proposal \<open>i\<close> is not in the output.
\<close>

theorem processOutput_confidence:
  assumes "reads_in_range svc output"
  shows "(\<forall>b\<in>set (processOutput svc output imageWidth imageHeight).
      CONFIDENCE_THRESHOLD \<le> confidence b \<and>
      (\<exists>j<numProposals svc.
         b = spec_box svc output imageWidth imageHeight (channel_count svc output) j \<and>
         CONFIDENCE_THRESHOLD \<le> spec_confidence svc output (channel_count svc output) j)) \<and>
   (spec_confidence svc output (channel_count svc output) i < CONFIDENCE_THRESHOLD \<longrightarrow>
      spec_box svc output imageWidth imageHeight (channel_count svc output) i
        \<notin> set (processOutput svc output imageWidth imageHeight))"
proof -
  let ?n = "channel_count svc output"
  have 1: "CONFIDENCE_THRESHOLD \<le> confidence b \<and>
      (\<exists>j<numProposals svc.
         b = spec_box svc output imageWidth imageHeight ?n j \<and>
         CONFIDENCE_THRESHOLD \<le> spec_confidence svc output ?n j)"
    if "b \<in> set (processOutput svc output imageWidth imageHeight)" for b
  proof -
    from processOutput_member [OF that] obtain j where j: "j < numProposals svc"
      "survives svc output ?n j" "b = spec_box svc output imageWidth imageHeight ?n j"
      by blast
    then have "CONFIDENCE_THRESHOLD \<le> spec_confidence svc output ?n j"
      by (simp add: survives_def)
    with j show ?thesis
      by (auto simp: confidence_spec_box)
  qed
  have 2: "spec_box svc output imageWidth imageHeight ?n i
        \<notin> set (processOutput svc output imageWidth imageHeight)"
    if "spec_confidence svc output ?n i < CONFIDENCE_THRESHOLD"
  proof
    assume "spec_box svc output imageWidth imageHeight ?n i
        \<in> set (processOutput svc output imageWidth imageHeight)"
    from 1 [OF this] have "CONFIDENCE_THRESHOLD \<le> spec_confidence svc output ?n i"
      by (simp add: confidence_spec_box)
    with that show False by simp
  qed
  from 1 2 show ?thesis by blast
qed

theorem processOutput_confidence_witness:
  "reads_in_range readyService edgeTensor \<and>
   processOutput readyService edgeTensor 64 64 = [edgeBox] \<and>
   CONFIDENCE_THRESHOLD \<le> confidence edgeBox \<and>
   spec_confidence readyService edgeTensor (channel_count readyService edgeTensor) 0
     < CONFIDENCE_THRESHOLD \<and>
   spec_box readyService edgeTensor 64 64 (channel_count readyService edgeTensor) 0
     \<notin> set (processOutput readyService edgeTensor 64 64)"
proof -
  have m: "edgeBox \<in> set (processOutput readyService edgeTensor 64 64)"
    by (simp add: processOutput_edge)
  have c: "spec_confidence readyService edgeTensor (channel_count readyService edgeTensor) 0
     < CONFIDENCE_THRESHOLD"
    using spec_confidence_edge_0 by (simp add: channel_count_edge CONFIDENCE_THRESHOLD_def)
  from processOutput_confidence [OF ready_in_range, of 64 64 0] m c
  have "CONFIDENCE_THRESHOLD \<le> confidence edgeBox"
    and "spec_box readyService edgeTensor 64 64 (channel_count readyService edgeTensor) 0
     \<notin> set (processOutput readyService edgeTensor 64 64)"
    by blast+
  with c ready_in_range show ?thesis
    by (simp add: processOutput_edge)
qed

text \<open>
  Claim C6. For every proposal \<open>i\<close> with grid cell \<open>(gx, gy)\<close> and stride \<open>s\<close> that
  survives the threshold, in a tensor of at least five channels that holds a number for
  every read, the loop body pushes the box obtained, by the scaling to the
  image and the clamping, from the centre
  \<open>xCenter = (sigmoid (raw[0][i]) * 2 - 0.5 + gx) * s\<close>,
  \<open>yCenter = (sigmoid (raw[1][i]) * 2 - 0.5 + gy) * s\<close> and the size
  \<open>width = (sigmoid (raw[2][i]) * 2)^2 * s\<close>, \<open>height = (sigmoid (raw[3][i]) * 2)^2 * s\<close>;
  its confidence is the sigmoid of the raw objectness times the class score, which is the
  maximum over the channels \<open>c\<close> from 5 to \<open>channels - 1\<close> of \<open>sigmoid (raw[c][i])\<close> when
  there are more than 5 channels, and 1 otherwise.
\<close>

theorem decode_step_formulas:
  fixes svc :: DetectionService and "output" :: "real list" and i numChannels :: nat
  defines "s \<equiv> real (stridePerProposal svc ! i)"
    and "gx \<equiv> real (gridX svc ! i)"
    and "gy \<equiv> real (gridY svc ! i)"
  defines "xCenter \<equiv> (sigmoid (raw svc output 0 i) * 2 - 0.5 + gx) * s"
    and "yCenter \<equiv> (sigmoid (raw svc output 1 i) * 2 - 0.5 + gy) * s"
    and "width \<equiv> (sigmoid (raw svc output 2 i) * 2) ^ 2 * s"
    and "height \<equiv> (sigmoid (raw svc output 3 i) * 2) ^ 2 * s"
    and "classScore \<equiv>
           (if numChannels > 5
            then Max ((\<lambda>c. sigmoid (raw svc output c i)) ` {5..<numChannels}) else 1)"
  assumes "\<not> sigmoid (raw svc output 4 i) * classScore < CONFIDENCE_THRESHOLD"
    and "grids_prepared svc" and "i < numProposals svc"
    and "5 \<le> numChannels" and "numChannels * numProposals svc \<le> length output"
  shows "decode_step svc output imageWidth imageHeight scaleX scaleY numChannels i boxes =
           boxes @ [to_image_box xCenter yCenter width height
                      (sigmoid (raw svc output 4 i) * classScore)
                      scaleX scaleY imageWidth imageHeight]"
  using assms
  by (simp add: decode_step_spec spec_confidence_def spec_classScore_def spec_xCenter_def
      spec_yCenter_def spec_width_def spec_height_def)

theorem decode_step_formulas_witness:
  "grids_prepared readyService \<and> grids_prepared cellService \<and>
   decode_step readyService edgeTensor 64 64 (64 / 640) (64 / 640) 5 79 [] = [edgeBox] \<and>
   decode_step cellService cellTensor 8 8 1 1 7 0 [] =
     [\<lparr>box_x = 0, box_y = 0, box_w = 8, box_h = 8, confidence = 9 / 20\<rparr>]"
proof -
  have r: "raw readyService edgeTensor 0 79 = 0" "raw readyService edgeTensor 1 79 = 0"
      "raw readyService edgeTensor 2 79 = 0" "raw readyService edgeTensor 3 79 = 0"
      "raw readyService edgeTensor 4 79 = 0" "raw readyService edgeTensor (Suc 0) 79 = 0"
    using edge_box_channels [of 0 79] edge_box_channels [of 1 79] edge_box_channels [of 2 79]
      edge_box_channels [of 3 79] edge_objectness [of 79] edge_box_channels [of "Suc 0" 79]
    by (simp_all add: raw_def ready_fields)
  have 1: "decode_step readyService edgeTensor 64 64 (64 / 640) (64 / 640) 5 79 [] = [edgeBox]"
    using decode_step_formulas [of readyService edgeTensor 79 5 64 64 "64 / 640" "64 / 640" "[]"]
      ready_prepared
    by (simp add: r sigmoid_0 CONFIDENCE_THRESHOLD_def ready_fields length_edgeTensor
        to_image_box_def clamp_def edgeBox_def)
  have s: "{5..<7::nat} = {5, 6}" by auto
  have c: "raw cellService cellTensor 0 0 = 0" "raw cellService cellTensor 1 0 = 0"
      "raw cellService cellTensor 2 0 = 0" "raw cellService cellTensor 3 0 = 0"
      "raw cellService cellTensor 4 0 = ln 9" "raw cellService cellTensor 5 0 = 0"
      "raw cellService cellTensor 6 0 = 0" "raw cellService cellTensor (Suc 0) 0 = 0"
    by (simp_all add: raw_def cellService_def cellTensor_def)
  have 2: "decode_step cellService cellTensor 8 8 1 1 7 0 [] =
     [\<lparr>box_x = 0, box_y = 0, box_w = 8, box_h = 8, confidence = 9 / 20\<rparr>]"
    using decode_step_formulas [of cellService cellTensor 0 7 8 8 1 1 "[]"] cell_prepared
    by (simp add: c s sigmoid_0 sigmoid_ln_9 CONFIDENCE_THRESHOLD_def to_image_box_def clamp_def)
      (simp add: cellService_def cellTensor_def)
  from 1 2 ready_prepared cell_prepared show ?thesis by simp
qed

text \<open>
  Claim C8, as amended. \<open>detectFaces\<close> fails with the error "not initialized" whenever it
  is called before the session is created; and whenever the grid is not prepared or the
  channel count is below 5, \<open>processOutput\<close> returns the empty list of boxes as a normal
  result (it warns on the console and throws nothing).
\<close>

theorem decoder_guards:
  "(\<not> session svc \<longrightarrow> detectFaces svc drawable ctx_ok run = Inl NotInitialized) \<and>
   (numProposals svc = 0 \<or> channel_count svc output < 5 \<longrightarrow>
      processOutput svc output imageWidth imageHeight = [])"
  by (simp add: detectFaces_def processOutput_spec)

theorem decoder_guards_witness:
  "\<not> session newDetectionService \<and>
   detectFaces newDetectionService (Inr (64, 64)) True (Inr fourChannelTensor) = Inl NotInitialized \<and>
   numProposals newDetectionService = 0 \<and>
   processOutput newDetectionService edgeTensor 64 64 = [] \<and>
   channel_count readyService (tdata fourChannelTensor) < 5 \<and>
   processOutput readyService (tdata fourChannelTensor) 64 64 = []"
proof -
  have 1: "\<not> session newDetectionService" and 2: "numProposals newDetectionService = 0"
    by (simp_all add: newDetectionService_def)
  have 3: "channel_count readyService (tdata fourChannelTensor) < 5"
    by (simp add: channel_count_def ready_fields fourChannelTensor_def)
  from 1 2 3
    decoder_guards [of newDetectionService "Inr (64, 64)" True "Inr fourChannelTensor" edgeTensor 64 64]
    decoder_guards [of readyService "Inr (64, 64)" True "Inr fourChannelTensor" "tdata fourChannelTensor" 64 64]
  show ?thesis by simp
qed

text \<open>
  Claim C8 as stated fails: on a tensor of four channels, the initialized service returns
  normally, with no box and with the channel count stored, where the claim asks for a
  shape-mismatch error.
\<close>

theorem detectFaces_four_channels_counterexample:
  "detectFaces readyService (Inr (64, 64)) True (Inr fourChannelTensor) =
     Inr (readyService\<lparr>channels := 4\<rparr>, [])"
  by (simp add: detectFaces_def fourChannelTensor_def ready_fields processOutput_def readyService_def)

section \<open>Properties of cropResizeToBlob\<close>

subsection \<open>Rounding to a double\<close>

lemma pow2_powr: "pow2 k = 2 powr real_of_int k"
  by (simp add: pow2_def powr_real_of_int inverse_eq_divide)

lemma pow2_pos: "0 < pow2 k"
  by (simp add: pow2_powr)

lemma pow2_add: "pow2 (a + b) = pow2 a * pow2 b"
  by (simp add: pow2_powr powr_add)

lemma pow2_mono: "a \<le> b \<Longrightarrow> pow2 a \<le> pow2 b"
  by (simp add: pow2_powr)

lemma pow2_nat: "pow2 (int n) = 2 ^ n"
  by (simp add: pow2_def)

lemma pow2_half: "pow2 (k - 1) = pow2 k / 2"
  using pow2_add [of k "-1"] by (simp add: pow2_def)

lemma round_half_even_error: "\<bar>real_of_int (round_half_even y) - y\<bar> \<le> 1 / 2"
  unfolding round_half_even_def Let_def by (auto; linarith)

lemma round_half_even_eq:
  assumes "\<bar>y - real_of_int m\<bar> < 1 / 2"
  shows "round_half_even y = m"
proof -
  have "\<bar>real_of_int (round_half_even y) - y\<bar> \<le> 1 / 2" by (rule round_half_even_error)
  with assms have "\<bar>real_of_int (round_half_even y) - real_of_int m\<bar> < 1" by linarith
  then have "\<bar>real_of_int (round_half_even y - m)\<bar> < 1" by simp
  then have "\<bar>round_half_even y - m\<bar> < 1" by linarith
  then show ?thesis by linarith
qed

lemma round_half_even_tie:
  assumes "\<bar>y - real_of_int m\<bar> = 1 / 2" and "even m"
  shows "round_half_even y = m"
proof (cases "y = real_of_int m + 1 / 2")
  case True
  then have "\<lfloor>y\<rfloor> = m" by linarith
  with True assms(2) show ?thesis by (simp add: round_half_even_def Let_def)
next
  case False
  with assms(1) have y: "y = real_of_int m - 1 / 2" by linarith
  then have f: "\<lfloor>y\<rfloor> = m - 1" by linarith
  have "odd (m - 1)" using assms(2) by simp
  with y f show ?thesis by (simp add: round_half_even_def Let_def)
qed

lemma double_exponent_bounds:
  assumes "v \<noteq> 0"
  shows "pow2 \<lfloor>log 2 \<bar>v\<bar>\<rfloor> \<le> \<bar>v\<bar>" and "\<bar>v\<bar> < pow2 (\<lfloor>log 2 \<bar>v\<bar>\<rfloor> + 1)"
proof -
  have a: "0 < \<bar>v\<bar>" using assms by simp
  have "2 powr real_of_int \<lfloor>log 2 \<bar>v\<bar>\<rfloor> \<le> 2 powr log 2 \<bar>v\<bar>"
    by (simp del: powr_log_cancel)
  then show "pow2 \<lfloor>log 2 \<bar>v\<bar>\<rfloor> \<le> \<bar>v\<bar>"
    using a by (simp add: pow2_powr)
  have "2 powr log 2 \<bar>v\<bar> < 2 powr real_of_int (\<lfloor>log 2 \<bar>v\<bar>\<rfloor> + 1)"
    by (simp del: powr_log_cancel)
  then show "\<bar>v\<bar> < pow2 (\<lfloor>log 2 \<bar>v\<bar>\<rfloor> + 1)"
    using a by (simp add: pow2_powr)
qed

lemma floor_log2_eq:
  assumes "pow2 e \<le> a" and "a < pow2 (e + 1)"
  shows "\<lfloor>log 2 a\<rfloor> = e"
proof -
  have a: "0 < a" using assms(1) pow2_pos [of e] by linarith
  have "real_of_int e \<le> log 2 a"
    using assms(1) a by (simp add: pow2_powr le_log_iff)
  moreover have "log 2 a < real_of_int (e + 1)"
    using assms(2) a by (simp add: pow2_powr log_less_iff)
  ultimately show ?thesis by linarith
qed

text \<open>
  A rounding moves a number by at most half the spacing of the doubles around it.
\<close>

lemma double_error: "\<bar>double v - v\<bar> \<le> pow2 (double_exponent v - 53)"
proof (cases "v = 0")
  case True
  then show ?thesis using pow2_pos [of "double_exponent v - 53"] by (simp add: double_def)
next
  case False
  define u where "u = pow2 (double_exponent v - 52)"
  define m where "m = round_half_even (\<bar>v\<bar> / u)"
  have u: "0 < u" by (simp add: u_def pow2_pos)
  have d: "double v = sgn v * real_of_int m * u"
    using False by (simp add: double_def Let_def u_def m_def)
  have "\<bar>double v - v\<bar> = \<bar>sgn v * (real_of_int m * u - \<bar>v\<bar>)\<bar>"
    unfolding d by (simp add: algebra_simps sgn_real_def abs_if)
  also have "\<dots> = \<bar>real_of_int m * u - \<bar>v\<bar>\<bar>"
    using False by (simp add: abs_mult)
  also have "\<dots> = \<bar>real_of_int m - \<bar>v\<bar> / u\<bar> * u"
  proof -
    have "real_of_int m * u - \<bar>v\<bar> = (real_of_int m - \<bar>v\<bar> / u) * u"
      using u by (simp add: field_simps)
    then show ?thesis using u by (simp only: abs_mult abs_of_pos)
  qed
  also have "\<dots> \<le> 1 / 2 * u"
    using round_half_even_error [of "\<bar>v\<bar> / u"] u unfolding m_def
    by (intro mult_right_mono) simp_all
  also have "\<dots> = pow2 (double_exponent v - 53)"
    using pow2_half [of "double_exponent v - 52"] by (simp add: u_def)
  finally show ?thesis .
qed

lemma double_error_bound: "\<bar>double v - v\<bar> \<le> \<bar>v\<bar> * pow2 (- 53) + pow2 (- 1075)"
proof (cases "v = 0")
  case True
  then show ?thesis using pow2_pos [of "- 1075"] by (simp add: double_def)
next
  case False
  let ?l = "\<lfloor>log 2 \<bar>v\<bar>\<rfloor>"
  have "pow2 (double_exponent v - 53) \<le> \<bar>v\<bar> * pow2 (- 53) + pow2 (- 1075)"
  proof (cases "- 1022 \<le> ?l")
    case True
    then have "double_exponent v - 53 = ?l + (- 53)" by (simp add: double_exponent_def)
    then have "pow2 (double_exponent v - 53) = pow2 ?l * pow2 (- 53)"
      by (simp only: pow2_add)
    also have "\<dots> \<le> \<bar>v\<bar> * pow2 (- 53)"
      using double_exponent_bounds(1) [OF False] pow2_pos [of "- 53"]
      by (intro mult_right_mono) simp_all
    finally show ?thesis using pow2_pos [of "- 1075"] by linarith
  next
    case False
    then have "double_exponent v - 53 = - 1075" by (simp add: double_exponent_def)
    then have "pow2 (double_exponent v - 53) = pow2 (- 1075)" by (simp only:)
    moreover have "0 \<le> \<bar>v\<bar> * pow2 (- 53)" using pow2_pos [of "- 53"] by simp
    ultimately show ?thesis by linarith
  qed
  with double_error [of v] show ?thesis by linarith
qed

text \<open>
  The double nearest to a positive number \<open>v\<close> with \<open>2 ^ k \<le> v * 2 ^ 56 < 2 ^ (k + 1)\<close>,
  from the integer \<open>m\<close> nearest to \<open>v\<close> in units of the spacing of the doubles around
  \<open>v\<close>; and the same for a difference of two multiples of \<open>pow2 (- 56)\<close>.
\<close>

lemma double_eval:
  fixes v :: real and k :: nat
  assumes "2 ^ k \<le> v * 2 ^ 56" and "v * 2 ^ 56 < 2 ^ (k + 1)" and "52 \<le> k"
    and "\<bar>v * 2 ^ 56 / 2 ^ (k - 52) - real_of_int m\<bar> < 1 / 2 \<or>
         \<bar>v * 2 ^ 56 / 2 ^ (k - 52) - real_of_int m\<bar> = 1 / 2 \<and> even m"
  shows "double v = fx (m * 2 ^ (k - 52))"
proof -
  have v: "0 < v"
  proof -
    have "(0::real) < 2 ^ k" by simp
    with assms(1) have "0 < v * 2 ^ 56" by linarith
    then show ?thesis by (simp add: zero_less_mult_iff)
  qed
  have p56: "pow2 (- 56) = 1 / 2 ^ 56" by (simp add: pow2_def)
  have "pow2 (int k - 56) = pow2 (int k) * pow2 (- 56)"
    using pow2_add [of "int k" "- 56"] by simp
  then have pk: "pow2 (int k - 56) = 2 ^ k / 2 ^ 56"
    by (simp add: pow2_nat p56)
  have "int k - 56 + 1 = int (k + 1) + (- 56)" by simp
  then have "pow2 (int k - 56 + 1) = pow2 (int (k + 1)) * pow2 (- 56)"
    by (simp only: pow2_add)
  then have pk1: "pow2 (int k - 56 + 1) = 2 ^ (k + 1) / 2 ^ 56"
    by (simp only: pow2_nat p56) simp
  have "\<lfloor>log 2 v\<rfloor> = int k - 56"
  proof (rule floor_log2_eq)
    show "pow2 (int k - 56) \<le> v" unfolding pk using assms(1) by (simp add: field_simps)
    show "v < pow2 (int k - 56 + 1)" unfolding pk1 using assms(2) by (simp add: field_simps del: power_Suc)
  qed
  then have e: "double_exponent v = int k - 56"
    using v by (simp add: double_exponent_def)
  have "int k - 56 - 52 = int (k - 52) + (- 56)" using assms(3) by simp
  then have "pow2 (int k - 56 - 52) = pow2 (int (k - 52)) * pow2 (- 56)"
    by (simp only: pow2_add)
  then have u: "pow2 (double_exponent v - 52) = 2 ^ (k - 52) / 2 ^ 56"
    unfolding e by (simp only: pow2_nat p56) simp
  have y: "\<bar>v\<bar> / (2 ^ (k - 52) / 2 ^ 56) = v * 2 ^ 56 / 2 ^ (k - 52)"
    using v by simp
  have "round_half_even (v * 2 ^ 56 / 2 ^ (k - 52)) = m"
    using assms(4) round_half_even_eq round_half_even_tie by blast
  then show ?thesis
    using v by (simp add: double_def Let_def u y fx_def)
qed

lemma double_minus_fx:
  fixes a b m :: int and k :: nat
  assumes "2 ^ k \<le> a - b" and "a - b < 2 ^ (k + 1)" and "52 \<le> k"
    and "2 * \<bar>a - b - m * 2 ^ (k - 52)\<bar> < 2 ^ (k - 52) \<or>
         2 * \<bar>a - b - m * 2 ^ (k - 52)\<bar> = 2 ^ (k - 52) \<and> even m"
  shows "double_minus (fx a) (fx b) = fx (m * 2 ^ (k - 52))"
proof -
  have v: "(fx a - fx b) * 2 ^ 56 = real_of_int (a - b)"
    by (simp add: fx_def field_simps)
  have d: "\<bar>real_of_int (a - b) / 2 ^ (k - 52) - real_of_int m\<bar> =
           real_of_int (2 * \<bar>a - b - m * 2 ^ (k - 52)\<bar>) / (2 * 2 ^ (k - 52))"
  proof -
    have "real_of_int (a - b) / 2 ^ (k - 52) - real_of_int m =
          real_of_int (a - b - m * 2 ^ (k - 52)) / 2 ^ (k - 52)"
      by (simp add: field_simps)
    then show ?thesis by (simp add: abs_divide del: of_int_diff)
  qed
  have lt: "\<bar>real_of_int (a - b) / 2 ^ (k - 52) - real_of_int m\<bar> < 1 / 2"
    if "2 * \<bar>a - b - m * 2 ^ (k - 52)\<bar> < 2 ^ (k - 52)"
  proof -
    from that have "real_of_int (2 * \<bar>a - b - m * 2 ^ (k - 52)\<bar>) < real_of_int (2 ^ (k - 52))"
      by (simp only: of_int_less_iff)
    then show ?thesis unfolding d by (simp add: field_simps)
  qed
  have eq: "\<bar>real_of_int (a - b) / 2 ^ (k - 52) - real_of_int m\<bar> = 1 / 2"
    if "2 * \<bar>a - b - m * 2 ^ (k - 52)\<bar> = 2 ^ (k - 52)"
  proof -
    from that have "real_of_int (2 * \<bar>a - b - m * 2 ^ (k - 52)\<bar>) = real_of_int (2 ^ (k - 52))"
      by (simp only:)
    then show ?thesis unfolding d by (simp add: field_simps)
  qed
  have "double (fx a - fx b) = fx (m * 2 ^ (k - 52))"
  proof (rule double_eval [where k = k])
    show "2 ^ k \<le> (fx a - fx b) * 2 ^ 56"
      unfolding v using assms(1) by (metis of_int_le_iff of_int_numeral of_int_power)
    show "(fx a - fx b) * 2 ^ 56 < 2 ^ (k + 1)"
      unfolding v using assms(2) by (metis of_int_less_iff of_int_numeral of_int_power)
    show "52 \<le> k" by (rule assms(3))
    show "\<bar>(fx a - fx b) * 2 ^ 56 / 2 ^ (k - 52) - real_of_int m\<bar> < 1 / 2 \<or>
          \<bar>(fx a - fx b) * 2 ^ 56 / 2 ^ (k - 52) - real_of_int m\<bar> = 1 / 2 \<and> even m"
      unfolding v using assms(4) lt eq by blast
  qed
  then show ?thesis by (simp add: double_minus_def)
qed

text \<open>
  Rounding commutes with the sign, and a difference with fewer than 53 bits is exact.
\<close>

lemma double_uminus: "double (- v) = - double v"
  by (simp add: double_def double_exponent_def Let_def)

lemma double_minus_swap: "double_minus a b = - double_minus b a"
  using double_uminus [of "b - a"] by (simp add: double_minus_def)

lemma round_half_even_int: "round_half_even (real_of_int z) = z"
  by (rule round_half_even_eq) simp

lemma double_minus_fx_small:
  fixes a b :: int and k :: nat
  assumes "2 ^ k \<le> a - b" and "a - b < 2 ^ (k + 1)" and "k \<le> 52"
  shows "double_minus (fx a) (fx b) = fx (a - b)"
proof -
  define v where "v = fx a - fx b"
  have vn: "v * 2 ^ 56 = real_of_int (a - b)"
    by (simp add: v_def fx_def field_simps)
  have n: "(2::real) ^ k \<le> real_of_int (a - b)" "real_of_int (a - b) < 2 ^ (k + 1)"
    using assms(1,2) by (metis of_int_le_iff of_int_numeral of_int_power,
        metis of_int_less_iff of_int_numeral of_int_power)
  have v: "0 < v"
  proof -
    have "(0::real) < 2 ^ k" by simp
    with n(1) vn have "0 < v * 2 ^ 56" by linarith
    then show ?thesis by (simp add: zero_less_mult_iff)
  qed
  have p56: "pow2 (- 56) = 1 / 2 ^ 56" by (simp add: pow2_def)
  have "pow2 (int k - 56) = pow2 (int k) * pow2 (- 56)"
    using pow2_add [of "int k" "- 56"] by simp
  then have pk: "pow2 (int k - 56) = 2 ^ k / 2 ^ 56"
    by (simp add: pow2_nat p56)
  have "int k - 56 + 1 = int (k + 1) + (- 56)" by simp
  then have "pow2 (int k - 56 + 1) = pow2 (int (k + 1)) * pow2 (- 56)"
    by (simp only: pow2_add)
  then have pk1: "pow2 (int k - 56 + 1) = 2 ^ (k + 1) / 2 ^ 56"
    by (simp only: pow2_nat p56) simp
  have "\<lfloor>log 2 v\<rfloor> = int k - 56"
  proof (rule floor_log2_eq)
    show "pow2 (int k - 56) \<le> v" unfolding pk using n(1) vn by (simp add: field_simps)
    show "v < pow2 (int k - 56 + 1)" unfolding pk1 using n(2) vn
      by (simp add: field_simps del: power_Suc)
  qed
  then have e: "double_exponent v = int k - 56"
    using v by (simp add: double_exponent_def)
  have "int k - 56 - 52 + int (52 - k) = - 56" using assms(3) by simp
  then have "pow2 (int k - 56 - 52) * pow2 (int (52 - k)) = pow2 (- 56)"
    by (simp only: pow2_add [symmetric])
  then have u: "pow2 (double_exponent v - 52) * 2 ^ (52 - k) = 1 / 2 ^ 56"
    unfolding e by (simp only: pow2_nat p56)
  define u where "u = pow2 (double_exponent v - 52)"
  have u0: "0 < u" by (simp add: u_def pow2_pos)
  have uu: "u * 2 ^ (52 - k) = 1 / 2 ^ 56" using u by (simp add: u_def)
  have "v / u = v * 2 ^ 56 * 2 ^ (52 - k)"
    using uu u0 by (simp add: field_simps)
  also have "\<dots> = real_of_int ((a - b) * 2 ^ (52 - k))"
    unfolding vn by simp
  finally have y: "\<bar>v\<bar> / u = real_of_int ((a - b) * 2 ^ (52 - k))"
    using v by simp
  have "double v = real_of_int ((a - b) * 2 ^ (52 - k)) * u"
    using v unfolding double_def Let_def u_def [symmetric] y round_half_even_int by simp
  also have "\<dots> = real_of_int (a - b) * (u * 2 ^ (52 - k))"
    by simp
  also have "\<dots> = fx (a - b)"
    unfolding uu by (simp add: fx_def)
  finally show ?thesis by (simp add: double_minus_def v_def)
qed

subsection \<open>The qualities of the examples\<close>

text \<open>
  The doubles of the literals, and the subtractions the loop makes on its way down from 0.9
  by 0.08, by 0.12 and by 0.1, and from 1 by 0.1, each with the exponent and the integer
  that give the result by the lemmas above.
\<close>

lemma double_1: "double 1 = fx 72057594037927936"
  using double_eval [of 56 1 4503599627370496] by simp

lemma double_0: "double 0 = 0"
  by (simp add: double_def)

lemma double_0_9: "double 0.9 = fx 64851834634135144"
  using double_eval [of 55 "0.9" 8106479329266893] by simp

lemma double_0_08: "double 0.08 = fx 5764607523034235"
  using double_eval [of 52 "0.08" 5764607523034235] by simp

lemma double_0_25: "double 0.25 = fx 18014398509481984"
  using double_eval [of 54 "0.25" 4503599627370496] by simp

lemma double_0_12: "double 0.12 = fx 8646911284551352"
  using double_eval [of 52 "0.12" 8646911284551352] by simp

lemma double_0_1: "double 0.1 = fx 7205759403792794"
  using double_eval [of 52 "0.1" 7205759403792794] by simp

lemma double_0_3: "double 0.3 = fx 21617278211378380"
  using double_eval [of 54 "0.3" 5404319552844595] by simp

lemma jpeg_step_1: "double_minus (fx 64851834634135144) (fx 5764607523034235) = fx 59087227111100912"
  using double_minus_fx [of 55 64851834634135144 5764607523034235 7385903388887614] by simp

lemma jpeg_step_2: "double_minus (fx 59087227111100912) (fx 5764607523034235) = fx 53322619588066680"
  using double_minus_fx [of 55 59087227111100912 5764607523034235 6665327448508335] by simp

lemma jpeg_step_3: "double_minus (fx 53322619588066680) (fx 5764607523034235) = fx 47558012065032448"
  using double_minus_fx [of 55 53322619588066680 5764607523034235 5944751508129056] by simp

lemma jpeg_step_4: "double_minus (fx 47558012065032448) (fx 5764607523034235) = fx 41793404541998216"
  using double_minus_fx [of 55 47558012065032448 5764607523034235 5224175567749777] by simp

lemma jpeg_step_5: "double_minus (fx 41793404541998216) (fx 5764607523034235) = fx 36028797018963984"
  using double_minus_fx [of 55 41793404541998216 5764607523034235 4503599627370498] by simp

lemma jpeg_step_6: "double_minus (fx 36028797018963984) (fx 5764607523034235) = fx 30264189495929748"
  using double_minus_fx [of 54 36028797018963984 5764607523034235 7566047373982437] by simp

lemma jpeg_step_7: "double_minus (fx 30264189495929748) (fx 5764607523034235) = fx 24499581972895512"
  using double_minus_fx [of 54 30264189495929748 5764607523034235 6124895493223878] by simp

lemma jpeg_step_8: "double_minus (fx 24499581972895512) (fx 5764607523034235) = fx 18734974449861276"
  using double_minus_fx [of 54 24499581972895512 5764607523034235 4683743612465319] by simp

lemma jpeg_step_9: "double_minus (fx 18734974449861276) (fx 5764607523034235) = fx 12970366926827040"
  using double_minus_fx [of 53 18734974449861276 5764607523034235 6485183463413520] by simp

lemma webp_step_1: "double_minus (fx 64851834634135144) (fx 8646911284551352) = fx 56204923349583792"
  using double_minus_fx [of 55 64851834634135144 8646911284551352 7025615418697974] by simp

lemma webp_step_2: "double_minus (fx 56204923349583792) (fx 8646911284551352) = fx 47558012065032440"
  using double_minus_fx [of 55 56204923349583792 8646911284551352 5944751508129055] by simp

lemma webp_step_3: "double_minus (fx 47558012065032440) (fx 8646911284551352) = fx 38911100780481088"
  using double_minus_fx [of 55 47558012065032440 8646911284551352 4863887597560136] by simp

lemma webp_step_4: "double_minus (fx 38911100780481088) (fx 8646911284551352) = fx 30264189495929736"
  using double_minus_fx [of 54 38911100780481088 8646911284551352 7566047373982434] by simp

lemma webp_step_5: "double_minus (fx 30264189495929736) (fx 8646911284551352) = fx 21617278211378384"
  using double_minus_fx [of 54 30264189495929736 8646911284551352 5404319552844596] by simp

lemma webp_step_6: "double_minus (fx 21617278211378384) (fx 8646911284551352) = fx 12970366926827032"
  using double_minus_fx [of 53 21617278211378384 8646911284551352 6485183463413516] by simp

lemma tenth_step_1: "double_minus (fx 64851834634135144) (fx 7205759403792794) = fx 57646075230342352"
  using double_minus_fx [of 55 64851834634135144 7205759403792794 7205759403792794] by simp

lemma tenth_step_2: "double_minus (fx 57646075230342352) (fx 7205759403792794) = fx 50440315826549560"
  using double_minus_fx [of 55 57646075230342352 7205759403792794 6305039478318695] by simp

lemma tenth_step_3: "double_minus (fx 50440315826549560) (fx 7205759403792794) = fx 43234556422756768"
  using double_minus_fx [of 55 50440315826549560 7205759403792794 5404319552844596] by simp

lemma tenth_step_4: "double_minus (fx 43234556422756768) (fx 7205759403792794) = fx 36028797018963976"
  using double_minus_fx [of 55 43234556422756768 7205759403792794 4503599627370497] by simp

lemma tenth_step_5: "double_minus (fx 36028797018963976) (fx 7205759403792794) = fx 28823037615171184"
  using double_minus_fx [of 54 36028797018963976 7205759403792794 7205759403792796] by simp

lemma tenth_step_6: "double_minus (fx 28823037615171184) (fx 7205759403792794) = fx 21617278211378392"
  using double_minus_fx [of 54 28823037615171184 7205759403792794 5404319552844598] by simp

lemma tenth_step_7: "double_minus (fx 21617278211378392) (fx 7205759403792794) = fx 14411518807585598"
  using double_minus_fx [of 53 21617278211378392 7205759403792794 7205759403792799] by simp

lemma unit_step_1: "double_minus (fx 72057594037927936) (fx 7205759403792794) = fx 64851834634135144"
  using double_minus_fx [of 55 72057594037927936 7205759403792794 8106479329266893] by simp

lemma unit_step_2: "double_minus (fx 14411518807585598) (fx 7205759403792794) = fx 7205759403792804"
  using double_minus_fx [of 52 14411518807585598 7205759403792794 7205759403792804] by simp

lemma unit_step_3: "double_minus (fx 7205759403792804) (fx 7205759403792794) = fx 10"
  using double_minus_fx_small [of 3 7205759403792804 7205759403792794] by simp

lemma unit_step_4: "double_minus (fx 10) (fx 7205759403792794) = - fx 7205759403792784"
  using double_minus_fx [of 52 7205759403792794 10 7205759403792784] double_minus_swap [of "fx 10" "fx 7205759403792794"] by simp

subsection \<open>The quality loop\<close>

text \<open>
  A step above the rounding error is positive, and one subtraction then lowers the quality
  by at least the step less the rounding error.
\<close>

lemma step_positive:
  assumes "rounding_error qStart minQ qStep < qStep"
  shows "0 < qStep"
proof (rule ccontr)
  assume "\<not> 0 < qStep"
  then have s: "qStep \<le> 0" by simp
  have "pow2 (- 53) \<le> pow2 0" by (rule pow2_mono) simp
  then have p: "pow2 (- 53) \<le> 1" by (simp add: pow2_def)
  have p0: "0 < pow2 (- 53)" by (rule pow2_pos)
  have "qStep * 1 \<le> qStep * pow2 (- 53)"
    using p s by (rule mult_left_mono_neg)
  moreover have "qStep * pow2 (- 53) \<le> (\<bar>qStart\<bar> + \<bar>minQ\<bar> + qStep) * pow2 (- 53)"
    using p0 by (intro mult_right_mono) simp_all
  ultimately have "qStep < rounding_error qStart minQ qStep"
    using pow2_pos [of "- 1075"] by (simp add: rounding_error_def)
  with assms show False by simp
qed

lemma double_minus_progress:
  assumes "minQ < q" and "q \<le> qStart" and "0 \<le> qStep"
  shows "double_minus q qStep \<le> q - (qStep - rounding_error qStart minQ qStep)"
proof -
  have "\<bar>q - qStep\<bar> \<le> \<bar>qStart\<bar> + \<bar>minQ\<bar> + qStep"
    using assms by linarith
  then have "\<bar>q - qStep\<bar> * pow2 (- 53) \<le> (\<bar>qStart\<bar> + \<bar>minQ\<bar> + qStep) * pow2 (- 53)"
    using pow2_pos [of "- 53"] by (intro mult_right_mono) simp_all
  with double_error_bound [of "q - qStep"] show ?thesis
    by (simp add: double_minus_def rounding_error_def)
qed

lemma ceiling_step:
  fixes q q' minQ d :: real
  assumes "0 < d" and "minQ < q" and "minQ \<le> q'" and "q' \<le> max minQ (q - d)"
  shows "nat \<lceil>(q' - minQ) / d\<rceil> < nat \<lceil>(q - minQ) / d\<rceil>"
proof (cases "q - d \<le> minQ")
  case True
  with assms(3,4) have "q' - minQ = 0" by simp
  moreover have "0 < (q - minQ) / d" using assms by simp
  then have "0 < \<lceil>(q - minQ) / d\<rceil>" by simp
  ultimately show ?thesis by simp
next
  case False
  with assms(4) have "q' \<le> q - d" by simp
  then have "(q' - minQ) / d \<le> (q - d - minQ) / d"
    using assms(1) by (simp add: divide_right_mono)
  also have "(q - d - minQ) / d = (q - minQ) / d - 1"
    using assms(1) by (simp add: field_simps)
  finally have "\<lceil>(q' - minQ) / d\<rceil> \<le> \<lceil>(q - minQ) / d - 1\<rceil>"
    by (rule ceiling_mono)
  then have c: "\<lceil>(q' - minQ) / d\<rceil> \<le> \<lceil>(q - minQ) / d\<rceil> - 1"
    by simp
  have "0 < (q - minQ) / d" using assms by simp
  then have "0 < \<lceil>(q - minQ) / d\<rceil>" by simp
  with c show ?thesis by linarith
qed

text \<open>
  The loop ends when every subtraction lowers the quality by at least \<open>d\<close>, and then makes
  at most \<open>ceiling ((quality - minQuality) / d)\<close> further calls.
\<close>

lemma quality_loop_terminates:
  assumes "0 < d"
    and progress: "\<And>q'. minQ < q' \<Longrightarrow> q' \<le> qTop \<Longrightarrow> double_minus q' step \<le> q' - d"
    and "q \<le> qTop"
  shows "\<exists>atts r. quality_loop tb ty maxB minQ step q b k = Some (atts, r) \<and>
           length k \<le> length atts \<and> length atts \<le> length k + nat \<lceil>(q - minQ) / d\<rceil>"
  using assms(3)
proof (induction "nat \<lceil>(q - minQ) / d\<rceil>" arbitrary: q b k rule: less_induct)
  case less
  show ?case
  proof (cases "real b > maxB \<and> q > minQ")
    case False
    then show ?thesis
      by (subst quality_loop.simps) auto
  next
    case True
    let ?q = "max minQ (double_minus q step)"
    have p: "double_minus q step \<le> q - d"
      using progress True less.prems by blast
    then have le: "?q \<le> max minQ (q - d)" by simp
    have d: "nat \<lceil>(?q - minQ) / d\<rceil> < nat \<lceil>(q - minQ) / d\<rceil>"
      using ceiling_step [OF assms(1) _ _ le] True by simp
    have top: "?q \<le> qTop"
      using p True less.prems assms(1) by simp
    show ?thesis
    proof (cases "tb ty ?q")
      case (Inl e)
      have "quality_loop tb ty maxB minQ step q b k = Some (k @ [?q], Inl e)"
        using True Inl by (subst quality_loop.simps) (simp add: Let_def)
      moreover have "Suc (length k) \<le> length k + nat \<lceil>(q - minQ) / d\<rceil>"
        using d by linarith
      ultimately show ?thesis by simp
    next
      case (Inr b')
      from less.hyps [OF d top, of b' "k @ [?q]"] obtain atts r where
        l: "quality_loop tb ty maxB minQ step ?q b' (k @ [?q]) = Some (atts, r)"
        and n: "length (k @ [?q]) \<le> length atts"
          "length atts \<le> length (k @ [?q]) + nat \<lceil>(?q - minQ) / d\<rceil>"
        by blast
      have "quality_loop tb ty maxB minQ step q b k = Some (atts, r)"
        using True Inr l by (subst quality_loop.simps) (simp add: Let_def)
      moreover from n have "Suc (length k) \<le> length atts"
        and "length atts \<le> Suc (length k) + nat \<lceil>(?q - minQ) / d\<rceil>"
        by simp_all
      with d have "length k \<le> length atts"
        and "length atts \<le> length k + nat \<lceil>(q - minQ) / d\<rceil>"
        by linarith+
      ultimately show ?thesis by blast
    qed
  qed
qed

text \<open>
  What the result of the loop says about the calls made: the last quality attempted is the
  one whose blob or rejection the loop ends with.
\<close>

lemma quality_loop_last:
  assumes "quality_loop tb ty maxB minQ step q b k = Some (atts, r)"
    and "k \<noteq> []" and "last k = q" and "tb ty q = Inr b"
  shows "atts \<noteq> [] \<and>
         (case r of Inl e \<Rightarrow> tb ty (last atts) = Inl e
          | Inr (q', b') \<Rightarrow> last atts = q' \<and> tb ty q' = Inr b')"
proof -
  let ?P = "\<lambda>(tb::string \<Rightarrow> real \<Rightarrow> error + nat) (ty::string) (maxB::real) (minQ::real)
               (step::real) (q::real) (b::nat) (k::real list)
               (y::real list \<times> (error + real \<times> nat)).
        k \<noteq> [] \<longrightarrow> last k = q \<longrightarrow> tb ty q = Inr b \<longrightarrow>
        fst y \<noteq> [] \<and>
        (case snd y of Inl e \<Rightarrow> tb ty (last (fst y)) = Inl e
         | Inr (q', b') \<Rightarrow> last (fst y) = q' \<and> tb ty q' = Inr b')"
  from assms(1) have "?P tb ty maxB minQ step q b k (atts, r)"
  proof (rule quality_loop.raw_induct [rotated, where P = ?P])
    fix loop :: "(string \<Rightarrow> real \<Rightarrow> error + nat) \<Rightarrow> string \<Rightarrow> real \<Rightarrow> real \<Rightarrow> real \<Rightarrow>
                 real \<Rightarrow> nat \<Rightarrow> real list \<Rightarrow> (real list \<times> (error + real \<times> nat)) option"
      and tb :: "string \<Rightarrow> real \<Rightarrow> error + nat" and ty :: string
      and maxB minQ step q :: real and b :: nat and k :: "real list"
      and y :: "real list \<times> (error + real \<times> nat)"
    assume IH: "\<And>tb ty maxB minQ step q b k y.
                  loop tb ty maxB minQ step q b k = Some y \<Longrightarrow> ?P tb ty maxB minQ step q b k y"
      and eq: "(if real b > maxB \<and> q > minQ
                then (let quality' = max minQ (double_minus q step)
                      in (case tb ty quality' of
                            Inl e \<Rightarrow> Some (k @ [quality'], Inl e)
                          | Inr blobSize' \<Rightarrow>
                              loop tb ty maxB minQ step quality' blobSize' (k @ [quality'])))
                else Some (k, Inr (q, b))) = Some y"
    show "?P tb ty maxB minQ step q b k y"
    proof (intro impI)
      assume k: "k \<noteq> []" "last k = q" "tb ty q = Inr b"
      show "fst y \<noteq> [] \<and>
            (case snd y of Inl e \<Rightarrow> tb ty (last (fst y)) = Inl e
             | Inr (q', b') \<Rightarrow> last (fst y) = q' \<and> tb ty q' = Inr b')"
      proof (cases "real b > maxB \<and> q > minQ")
        case False
        with eq k show ?thesis by auto
      next
        case True
        let ?q = "max minQ (double_minus q step)"
        show ?thesis
        proof (cases "tb ty ?q")
          case (Inl e)
          with eq True show ?thesis by (auto simp: Let_def)
        next
          case (Inr s)
          with eq True have "loop tb ty maxB minQ step ?q s (k @ [?q]) = Some y"
            by (simp add: Let_def)
          from IH [OF this] Inr show ?thesis by simp
        qed
      qed
    qed
  qed
  with assms(2-4) show ?thesis by (cases r) auto
qed

text \<open>
  The loop runs forever when the subtraction leaves the quality as it is and every blob is
  over the budget.
\<close>

lemma quality_loop_diverges:
  assumes "\<And>q. \<exists>s. tb ty q = Inr s \<and> real s > maxB" and "double_minus q step = q"
    and "real b > maxB" and "q > minQ"
  shows "quality_loop tb ty maxB minQ step q b k = None"
proof (cases "quality_loop tb ty maxB minQ step q b k")
  case None
  then show ?thesis .
next
  case (Some y)
  let ?P = "\<lambda>(tb::string \<Rightarrow> real \<Rightarrow> error + nat) (ty::string) (maxB::real) (minQ::real)
               (step::real) (q::real) (b::nat) (k::real list)
               (y::real list \<times> (error + real \<times> nat)).
        (\<forall>q. \<exists>s. tb ty q = Inr s \<and> real s > maxB) \<longrightarrow> double_minus q step = q \<longrightarrow>
        real b > maxB \<longrightarrow> q > minQ \<longrightarrow> False"
  from Some have "?P tb ty maxB minQ step q b k y"
  proof (rule quality_loop.raw_induct [rotated, where P = ?P])
    fix loop :: "(string \<Rightarrow> real \<Rightarrow> error + nat) \<Rightarrow> string \<Rightarrow> real \<Rightarrow> real \<Rightarrow> real \<Rightarrow>
                 real \<Rightarrow> nat \<Rightarrow> real list \<Rightarrow> (real list \<times> (error + real \<times> nat)) option"
      and tb :: "string \<Rightarrow> real \<Rightarrow> error + nat" and ty :: string
      and maxB minQ step q :: real and b :: nat and k :: "real list"
      and y :: "real list \<times> (error + real \<times> nat)"
    assume IH: "\<And>tb ty maxB minQ step q b k y.
                  loop tb ty maxB minQ step q b k = Some y \<Longrightarrow> ?P tb ty maxB minQ step q b k y"
      and eq: "(if real b > maxB \<and> q > minQ
                then (let quality' = max minQ (double_minus q step)
                      in (case tb ty quality' of
                            Inl e \<Rightarrow> Some (k @ [quality'], Inl e)
                          | Inr blobSize' \<Rightarrow>
                              loop tb ty maxB minQ step quality' blobSize' (k @ [quality'])))
                else Some (k, Inr (q, b))) = Some y"
    show "?P tb ty maxB minQ step q b k y"
    proof (intro impI)
      assume a: "\<forall>q. \<exists>s. tb ty q = Inr s \<and> maxB < real s" and s: "double_minus q step = q"
        and b: "maxB < real b" and q: "minQ < q"
      from s q have q': "max minQ (double_minus q step) = q" by simp
      from a obtain s' where s': "tb ty q = Inr s'" "maxB < real s'" by blast
      from eq b q s' have "loop tb ty maxB minQ step q s' (k @ [q]) = Some y"
        by (simp add: Let_def q')
      from IH [OF this] a s s' q show False by blast
    qed
  qed
  with assms show ?thesis by blast
qed

subsection \<open>The search\<close>

lemma quality_search_terminates:
  assumes "0 < d"
    and "\<And>q'. minQ < q' \<Longrightarrow> q' \<le> start \<Longrightarrow> double_minus q' step \<le> q' - d"
  shows "\<exists>atts r. quality_search tb ty maxB start step minQ = Some (atts, r) \<and>
           length atts \<le> 1 + nat \<lceil>(start - minQ) / d\<rceil>"
proof (cases "tb ty start")
  case (Inl e)
  then show ?thesis by (simp add: quality_search_def)
next
  case (Inr b)
  have "start \<le> start" by simp
  from quality_loop_terminates [of d minQ start step start tb ty maxB b "[start]", OF assms this]
    Inr show ?thesis
    by (auto simp: quality_search_def)
qed

lemma quality_search_last:
  assumes "quality_search tb ty maxB start step minQ = Some (atts, r)"
  shows "atts \<noteq> [] \<and>
         (case r of Inl e \<Rightarrow> tb ty (last atts) = Inl e
          | Inr (q', b') \<Rightarrow> last atts = q' \<and> tb ty q' = Inr b')"
proof (cases "tb ty start")
  case (Inl e)
  with assms show ?thesis by (auto simp: quality_search_def)
next
  case (Inr b)
  with assms have "quality_loop tb ty maxB minQ step start b [start] = Some (atts, r)"
    by (simp add: quality_search_def)
  from quality_loop_last [OF this] Inr show ?thesis by simp
qed

lemma quality_search_over_budget:
  assumes "quality_search tb ty maxB start step minQ = Some (atts, Inr (q', b'))"
    and "\<forall>q\<in>set atts. \<forall>s. tb ty q = Inr s \<longrightarrow> real s > maxB"
  shows "real b' > maxB"
proof -
  from quality_search_last [OF assms(1)]
  have "atts \<noteq> []" and "last atts = q'" and "tb ty q' = Inr b'" by simp_all
  then have "q' \<in> set atts" using last_in_set by blast
  with assms(2) \<open>tb ty q' = Inr b'\<close> show ?thesis by blast
qed

lemma rounding_error_small:
  assumes "\<bar>a\<bar> \<le> 1" and "\<bar>b\<bar> \<le> 1" and "c \<le> 1"
  shows "rounding_error a b c \<le> 1 / 2 ^ 51"
proof -
  have p: "pow2 (- 53) = 1 / 2 ^ 53" by (simp add: pow2_def)
  have "pow2 (- 1075) \<le> pow2 (- 53)" by (rule pow2_mono) simp
  moreover have "(\<bar>a\<bar> + \<bar>b\<bar> + c) * pow2 (- 53) \<le> 3 * pow2 (- 53)"
    using assms pow2_pos [of "- 53"] by (intro mult_right_mono) simp_all
  ultimately have "rounding_error a b c \<le> 4 * pow2 (- 53)"
    by (simp add: rounding_error_def)
  then show ?thesis unfolding p by simp
qed

lemma rounding_error_bounds:
  assumes "\<bar>a\<bar> \<le> 1" and "\<bar>b\<bar> \<le> 1" and "0 \<le> c" and "c \<le> 1"
  shows "\<bar>a\<bar> / 2 ^ 53 < rounding_error a b c" and "rounding_error a b c \<le> 1 / 2 ^ 51"
proof -
  have p: "pow2 (- 53) = 1 / 2 ^ 53" by (simp add: pow2_def)
  have "\<bar>a\<bar> * pow2 (- 53) \<le> (\<bar>a\<bar> + \<bar>b\<bar> + c) * pow2 (- 53)"
    using assms(3) pow2_pos [of "- 53"] by (intro mult_right_mono) simp_all
  then have "\<bar>a\<bar> * pow2 (- 53) < rounding_error a b c"
    using pow2_pos [of "- 1075"] unfolding rounding_error_def by linarith
  then show "\<bar>a\<bar> / 2 ^ 53 < rounding_error a b c"
    unfolding p by simp
  show "rounding_error a b c \<le> 1 / 2 ^ 51"
    using assms by (intro rounding_error_small) simp_all
qed

lemma default_progress:
  "rounding_error (double 0.9) (double 0.25) (double 0.08) < double 0.08"
proof -
  have "rounding_error (double 0.9) (double 0.25) (double 0.08) \<le> 1 / 2 ^ 51"
    unfolding double_0_9 double_0_25 double_0_08
    by (rule rounding_error_small) (simp_all add: fx_def)
  moreover have "(1::real) / 2 ^ 51 < double 0.08"
    unfolding double_0_08 by (simp add: fx_def)
  ultimately show ?thesis by linarith
qed

lemma webp_progress:
  "11 / 100 \<le> double 0.12 - rounding_error (double 0.9) (double 0.25) (double 0.12)"
proof -
  have "rounding_error (double 0.9) (double 0.25) (double 0.12) \<le> 1 / 2 ^ 51"
    unfolding double_0_9 double_0_25 double_0_12
    by (rule rounding_error_small) (simp_all add: fx_def)
  moreover have "(11::real) / 100 + 1 / 2 ^ 51 \<le> double 0.12"
    unfolding double_0_12 by (simp add: fx_def)
  ultimately show ?thesis by linarith
qed

lemma webp_bound: "nat \<lceil>(double 0.9 - double 0.25) / (11 / 100)\<rceil> \<le> 6"
proof -
  have "(double 0.9 - double 0.25) / (11 / 100) \<le> 6"
    unfolding double_0_9 double_0_25 by (simp add: fx_def)
  then have "\<lceil>(double 0.9 - double 0.25) / (11 / 100)\<rceil> \<le> 6"
    by (simp only: ceiling_le_iff)
  then show ?thesis by linarith
qed

text \<open>
  The WebP search, with its fixed start, step and floor, always ends, after at most seven
  calls.
\<close>

lemma webp_search_terminates:
  "\<exists>atts r. quality_search tb ty maxB (double 0.9) (double 0.12) (double 0.25) = Some (atts, r) \<and>
     length atts \<le> 7"
proof -
  have s: "(0::real) \<le> double 0.12" unfolding double_0_12 by (simp add: fx_def)
  have "\<exists>atts r. quality_search tb ty maxB (double 0.9) (double 0.12) (double 0.25) = Some (atts, r) \<and>
          length atts \<le> 1 + nat \<lceil>(double 0.9 - double 0.25) / (11 / 100)\<rceil>"
  proof (rule quality_search_terminates)
    show "(0::real) < 11 / 100" by simp
    fix q' :: real
    assume "double 0.25 < q'" and "q' \<le> double 0.9"
    from double_minus_progress [OF this s] webp_progress
    show "double_minus q' (double 0.12) \<le> q' - 11 / 100" by linarith
  qed
  then obtain atts r where
    a: "quality_search tb ty maxB (double 0.9) (double 0.12) (double 0.25) = Some (atts, r)"
    and l: "length atts \<le> 1 + nat \<lceil>(double 0.9 - double 0.25) / (11 / 100)\<rceil>"
    by blast
  from l webp_bound have "length atts \<le> 7" by linarith
  with a show ?thesis by blast
qed

lemma encode_search_terminates:
  assumes "rounding_error qStart minQ qStep < qStep"
  shows "\<exists>jpegAttempts webpAttempts res.
           encode_search tb tSize maxB qStart qStep minQ fallback =
             Some (jpegAttempts, webpAttempts, res) \<and>
           length jpegAttempts \<le>
             1 + nat \<lceil>(qStart - minQ) / (qStep - rounding_error qStart minQ qStep)\<rceil> \<and>
           length webpAttempts \<le> 7"
proof -
  let ?d = "qStep - rounding_error qStart minQ qStep"
  have s: "0 \<le> qStep" using step_positive [OF assms] by simp
  have "\<exists>atts r. quality_search tb ''image/jpeg'' maxB qStart qStep minQ = Some (atts, r) \<and>
          length atts \<le> 1 + nat \<lceil>(qStart - minQ) / ?d\<rceil>"
  proof (rule quality_search_terminates)
    show "0 < ?d" using assms by simp
    fix q' :: real
    assume "minQ < q'" and "q' \<le> qStart"
    from double_minus_progress [OF this s]
    show "double_minus q' qStep \<le> q' - ?d" .
  qed
  then obtain j r where j: "quality_search tb ''image/jpeg'' maxB qStart qStep minQ = Some (j, r)"
    "length j \<le> 1 + nat \<lceil>(qStart - minQ) / ?d\<rceil>"
    by blast
  from webp_search_terminates [of tb "''image/webp''" maxB]
  obtain w rw where w: "quality_search tb ''image/webp'' maxB (double 0.9) (double 0.12) (double 0.25) =
      Some (w, rw)" "length w \<le> 7"
    by blast
  show ?thesis
  proof (cases r)
    case (Inl e)
    with j show ?thesis by (simp add: encode_search_def)
  next
    case (Inr qb)
    obtain q b where qb: "qb = (q, b)" by (cases qb)
    show ?thesis
    proof (cases "real b > maxB \<and> fallback")
      case False
      with j Inr qb show ?thesis
        by (auto simp: encode_search_def)
    next
      case True
      with j w Inr qb show ?thesis
        by (cases rw) (auto simp: encode_search_def)
    qed
  qed
qed

lemma encode_search_within_budget:
  assumes "encode_search tb tSize maxB qStart qStep minQ fallback = Some (j, w, Inr r)"
  shows "real (sizeBytes r) \<le> maxB \<and> sizeBytes r = enc_blob r"
  using assms
  by (auto simp: encode_search_def split: option.splits sum.splits if_splits prod.splits)

text \<open>
  When every JPEG call made gave a blob over the budget and no WebP call made gave a blob
  within it, the search ends with the size-exceeded error.
\<close>

lemma encode_search_exceeded:
  assumes "encode_search tb tSize maxB qStart qStep minQ fallback = Some (j, w, res)"
    and jpeg: "\<forall>q\<in>set j. \<exists>s. tb ''image/jpeg'' q = Inr s \<and> real s > maxB"
    and webp: "\<forall>q\<in>set w. \<forall>s. tb ''image/webp'' q = Inr s \<longrightarrow> real s > maxB"
  shows "res = Inl SizeExceeded"
proof -
  obtain jr where js: "quality_search tb ''image/jpeg'' maxB qStart qStep minQ = Some (j, jr)"
    using assms(1)
    by (auto simp: encode_search_def split: option.splits sum.splits prod.splits if_splits)
  from quality_search_last [OF js] have j: "j \<noteq> []" by simp
  have no_reject: "jr \<noteq> Inl e" for e
  proof
    assume e: "jr = Inl e"
    with quality_search_last [OF js] have "tb ''image/jpeg'' (last j) = Inl e" by simp
    moreover from jpeg j obtain s where "tb ''image/jpeg'' (last j) = Inr s"
      using last_in_set by blast
    ultimately show False by simp
  qed
  then obtain q b where jr: "jr = Inr (q, b)"
    by (cases jr) auto
  have b: "real b > maxB"
  proof (rule quality_search_over_budget)
    show "quality_search tb ''image/jpeg'' maxB qStart qStep minQ = Some (j, Inr (q, b))"
      using js jr by simp
    show "\<forall>q\<in>set j. \<forall>s. tb ''image/jpeg'' q = Inr s \<longrightarrow> maxB < real s"
      using jpeg by (metis sum.inject(2))
  qed
  show ?thesis
  proof (cases fallback)
    case False
    with assms(1) js jr b show ?thesis
      by (simp add: encode_search_def)
  next
    case True
    show ?thesis
    proof (cases "quality_search tb ''image/webp'' maxB (double 0.9) (double 0.12) (double 0.25)")
      case None
      with assms(1) js jr b True show ?thesis by (simp add: encode_search_def)
    next
      case (Some wr)
      obtain wn wres where wr: "wr = (wn, wres)" by (cases wr)
      show ?thesis
      proof (cases wres)
        case (Inl e)
        with assms(1) js jr b True Some wr show ?thesis by (simp add: encode_search_def)
      next
        case (Inr wqb)
        obtain wq wb where wqb: "wqb = (wq, wb)" by (cases wqb)
        have wn: "wn = w"
          using assms(1) js jr b True Some wr Inr wqb
          by (simp add: encode_search_def split: if_splits)
        have "real wb > maxB"
        proof (rule quality_search_over_budget)
          show "quality_search tb ''image/webp'' maxB (double 0.9) (double 0.12) (double 0.25) =
                  Some (w, Inr (wq, wb))"
            using Some wr Inr wqb wn by simp
          show "\<forall>q\<in>set w. \<forall>s. tb ''image/webp'' q = Inr s \<longrightarrow> maxB < real s"
            using webp by blast
        qed
        with assms(1) js jr b True Some wr Inr wqb show ?thesis by (simp add: encode_search_def)
      qed
    qed
  qed
qed

lemma cropResizeToBlob_search:
  "cropResizeToBlob browser bbox opts =
     (if \<not> has_context browser then Some (Inl NoCanvasContext)
      else if \<not> bitmap_resolves browser then Some (Inl BitmapFailed)
      else map_option (\<lambda>(jpegAttempts, webpAttempts, res). res)
             (encode_search (toBlob browser (draw_crop bbox (or_default (targetSize opts) 128)))
                (or_default (targetSize opts) 128) (or_default (maxBytes opts) (300 * 1024))
                (or_default (qualityStart opts) (double 0.9))
                (or_default (qualityStep opts) (double 0.08))
                (or_default (minQuality opts) (double 0.25))
                (or_default (webpFallback opts) True)))"
  by (simp add: cropResizeToBlob_def Let_def)

lemma default_options:
  "or_default (targetSize noOptions) 128 = 128"
  "or_default (maxBytes noOptions) (300 * 1024) = 300 * 1024"
  "or_default (qualityStart noOptions) (double 0.9) = double 0.9"
  "or_default (qualityStep noOptions) (double 0.08) = double 0.08"
  "or_default (minQuality noOptions) (double 0.25) = double 0.25"
  "or_default (webpFallback noOptions) True = True"
  by (simp_all add: noOptions_def or_default_def)

lemma browser_fields:
  "has_context stepBrowser" "bitmap_resolves stepBrowser"
  "has_context bigBrowser" "bitmap_resolves bigBrowser"
  "toBlob bigBrowser c t q = Inr 400000"
  by (simp_all add: stepBrowser_def bigBrowser_def)

subsection \<open>The searches of the examples\<close>

lemma fx_less [simp]: "fx a < fx b \<longleftrightarrow> a < b"
  by (simp add: fx_def divide_less_cancel)

lemma fx_pos [simp]: "0 < fx a \<longleftrightarrow> 0 < a"
  by (simp add: fx_def)

lemma fx_max [simp]: "max (fx a) (fx b) = fx (max a b)"
  by (simp add: max_def fx_def divide_le_cancel)

lemma stepBrowser_sizes:
  "toBlob stepBrowser c t (fx 64851834634135144) = Inr 400000"
  "toBlob stepBrowser c t (fx 59087227111100912) = Inr 400000"
  "toBlob stepBrowser c t (fx 53322619588066680) = Inr 250000"
  by (simp_all add: stepBrowser_def fx_def)

lemmas default_steps =
  jpeg_step_1 jpeg_step_2 jpeg_step_3 jpeg_step_4 jpeg_step_5 jpeg_step_6 jpeg_step_7
  jpeg_step_8 jpeg_step_9

lemmas webp_steps =
  webp_step_1 webp_step_2 webp_step_3 webp_step_4 webp_step_5 webp_step_6

lemmas tenth_steps =
  tenth_step_1 tenth_step_2 tenth_step_3 tenth_step_4 tenth_step_5 tenth_step_6 tenth_step_7

lemma stepBrowser_search:
  "encode_search (toBlob stepBrowser c) 128 (300 * 1024) (double 0.9) (double 0.08) (double 0.25)
     True = Some (take 3 jpegQualities, [], Inr stepImage)"
  unfolding double_0_9 double_0_08 double_0_25
  by (simp add: encode_search_def quality_search_def quality_loop.simps Let_def
      stepBrowser_sizes default_steps stepImage_def jpegQualities_def)

lemma bigBrowser_jpeg_search:
  "quality_search (toBlob bigBrowser c) ''image/jpeg'' (300 * 1024)
     (double 0.9) (double 0.08) (double 0.25) =
   Some (jpegQualities, Inr (double 0.25, 400000))"
  unfolding double_0_9 double_0_08 double_0_25
  by (simp add: quality_search_def quality_loop.simps Let_def browser_fields default_steps
      jpegQualities_def)

lemma bigBrowser_webp_search:
  "quality_search (toBlob bigBrowser c) ''image/webp'' (300 * 1024)
     (double 0.9) (double 0.12) (double 0.25) =
   Some (webpQualities, Inr (double 0.25, 400000))"
  unfolding double_0_9 double_0_12 double_0_25
  by (simp add: quality_search_def quality_loop.simps Let_def browser_fields webp_steps
      webpQualities_def)

lemma bigBrowser_tenth_jpeg_search:
  "quality_search (toBlob bigBrowser c) ''image/jpeg'' (300 * 1024)
     (double 0.9) (double 0.1) (double 0.3) =
   Some (tenthQualities, Inr (double 0.3, 400000))"
  unfolding double_0_9 double_0_1 double_0_3
  by (simp add: quality_search_def quality_loop.simps Let_def browser_fields tenth_steps
      tenthQualities_def)

lemma bigBrowser_search:
  "encode_search (toBlob bigBrowser c) 128 (300 * 1024) (double 0.9) (double 0.08) (double 0.25)
     True = Some (jpegQualities, webpQualities, Inl SizeExceeded)"
  unfolding encode_search_def bigBrowser_jpeg_search bigBrowser_webp_search by simp

lemma bigBrowser_tenth_search:
  "encode_search (toBlob bigBrowser c) 128 (300 * 1024) (double 0.9) (double 0.1) (double 0.3)
     True = Some (tenthQualities, webpQualities, Inl SizeExceeded)"
  unfolding encode_search_def bigBrowser_tenth_jpeg_search bigBrowser_webp_search by simp

lemma bigBrowser_unit_jpeg_search:
  "quality_search (toBlob bigBrowser c) ''image/jpeg'' (300 * 1024)
     (double 1) (double 0.1) (double 0) =
   Some (unitQualities, Inr (double 0, 400000))"
  unfolding double_1 double_0_1 double_0
  by (simp add: quality_search_def quality_loop.simps Let_def browser_fields tenth_steps
      unit_step_1 unit_step_2 unit_step_3 unit_step_4 unitQualities_def)

lemma bigBrowser_unit_search:
  "encode_search (toBlob bigBrowser c) 128 (300 * 1024) (double 1) (double 0.1) (double 0)
     True = Some (unitQualities, webpQualities, Inl SizeExceeded)"
  unfolding encode_search_def bigBrowser_unit_jpeg_search bigBrowser_webp_search by simp

text \<open>
  The bound of the amended claim C10 is attained in the three examples: it is 10 at the
  default options, 8 from 0.9 by 0.1 down to 0.3, and 12 from 1 by 0.1 down to 0.
\<close>

lemma default_amended_bound:
  "1 + \<lceil>(double 0.9 - double 0.25) /
        (double 0.08 - rounding_error (double 0.9) (double 0.25) (double 0.08))\<rceil> = 10"
proof -
  define e where "e = rounding_error (double 0.9) (double 0.25) (double 0.08)"
  have "0 < e" and "e \<le> 1 / 2 ^ 51"
    using rounding_error_bounds [of "double 0.9" "double 0.25" "double 0.08"]
    unfolding e_def double_0_9 double_0_25 double_0_08 by (simp_all add: fx_def)
  then have "8 < (fx 64851834634135144 - fx 18014398509481984) / (fx 5764607523034235 - e)"
    and "(fx 64851834634135144 - fx 18014398509481984) / (fx 5764607523034235 - e) \<le> 9"
    by (simp_all add: fx_def field_simps)
  then have "\<lceil>(fx 64851834634135144 - fx 18014398509481984) / (fx 5764607523034235 - e)\<rceil> = 9"
    by (simp add: ceiling_eq_iff)
  then show ?thesis
    unfolding e_def double_0_9 double_0_25 double_0_08 by simp
qed

lemma tenth_amended_bound:
  "1 + \<lceil>(double 0.9 - double 0.3) /
        (double 0.1 - rounding_error (double 0.9) (double 0.3) (double 0.1))\<rceil> = 8"
proof -
  define e where "e = rounding_error (double 0.9) (double 0.3) (double 0.1)"
  have "0 < e" and "e \<le> 1 / 2 ^ 51"
    using rounding_error_bounds [of "double 0.9" "double 0.3" "double 0.1"]
    unfolding e_def double_0_9 double_0_3 double_0_1 by (simp_all add: fx_def)
  then have "6 < (fx 64851834634135144 - fx 21617278211378380) / (fx 7205759403792794 - e)"
    and "(fx 64851834634135144 - fx 21617278211378380) / (fx 7205759403792794 - e) \<le> 7"
    by (simp_all add: fx_def field_simps)
  then have "\<lceil>(fx 64851834634135144 - fx 21617278211378380) / (fx 7205759403792794 - e)\<rceil> = 7"
    by (simp add: ceiling_eq_iff)
  then show ?thesis
    unfolding e_def double_0_9 double_0_3 double_0_1 by simp
qed

lemma unit_amended_bound:
  "1 + \<lceil>(double 1 - double 0) /
        (double 0.1 - rounding_error (double 1) (double 0) (double 0.1))\<rceil> = 12"
proof -
  define e where "e = rounding_error (double 1) (double 0) (double 0.1)"
  have "1 / 2 ^ 53 < e" and "e \<le> 1 / 2 ^ 51"
    using rounding_error_bounds [of "double 1" "double 0" "double 0.1"]
    unfolding e_def double_1 double_0 double_0_1 by (simp_all add: fx_def)
  then have "10 < (fx 72057594037927936 - 0) / (fx 7205759403792794 - e)"
    and "(fx 72057594037927936 - 0) / (fx 7205759403792794 - e) \<le> 11"
    by (simp_all add: fx_def field_simps)
  then have "\<lceil>(fx 72057594037927936 - 0) / (fx 7205759403792794 - e)\<rceil> = 11"
    by (simp add: ceiling_eq_iff)
  then show ?thesis
    unfolding e_def double_1 double_0 double_0_1 by simp
qed

text \<open>
  A step below \<open>1 / 2 ^ 54\<close> is below half the spacing of the doubles around 0.9: the
  subtraction gives 0.9 again.
\<close>

lemma absorbed_step:
  assumes "0 \<le> s" and "s < 1 / 2 ^ 54"
  shows "double_minus (double 0.9) s = double 0.9"
proof -
  have "double (fx 64851834634135144 - s) = fx (8106479329266893 * 2 ^ (55 - 52))"
    using assms by (intro double_eval) (simp_all add: fx_def field_simps)
  then show ?thesis unfolding double_0_9 double_minus_def by simp
qed

lemma bigBrowser_diverges:
  assumes "0 \<le> s" and "s < 1 / 2 ^ 54"
  shows "cropResizeToBlob bigBrowser bbox (noOptions\<lparr>qualityStep := Some s\<rparr>) = None"
proof -
  have "double 0.25 < double 0.9"
    unfolding double_0_9 double_0_25 by simp
  then have "quality_loop (\<lambda>type quality. Inr 400000) ''image/jpeg'' (300 * 1024) (double 0.25) s
          (double 0.9) 400000 [double 0.9] = None"
    using absorbed_step [OF assms] by (intro quality_loop_diverges) simp_all
  then show ?thesis
    by (simp add: cropResizeToBlob_search bigBrowser_def noOptions_def or_default_def
        encode_search_def quality_search_def)
qed

subsection \<open>Claims about the encoder\<close>

text \<open>
  Claim C1, as amended. For every call of \<open>cropResizeToBlob\<close> that returns normally, the
  size of the blob returned is at most \<open>maxBytes\<close> (by default \<open>300 * 1024\<close>), and
  \<open>sizeBytes\<close> is that size. Whenever the canvas context and the bitmap are obtained, the
  search for a quality ends, every JPEG attempt made has yielded a blob above \<open>maxBytes\<close>
  and no WebP attempt made has yielded a blob within it, the call fails with the
  size-exceeded error. The search ends, and the call with it, whenever \<open>qualityStep\<close> is
  above \<open>(\<bar>qualityStart\<bar> + \<bar>minQuality\<bar> + qualityStep) * pow2 (- 53) + pow2 (- 1075)\<close>,
  which bounds the rounding error of one subtraction \<open>quality - qualityStep\<close>.
\<close>

theorem cropResizeToBlob_budget:
  fixes browser :: Browser and bbox :: BoundingBox and opts :: EncodeOptions
  defines "tSize \<equiv> or_default (targetSize opts) 128"
    and "maxB \<equiv> or_default (maxBytes opts) (300 * 1024)"
    and "qStart \<equiv> or_default (qualityStart opts) (double 0.9)"
    and "qStep \<equiv> or_default (qualityStep opts) (double 0.08)"
    and "minQ \<equiv> or_default (minQuality opts) (double 0.25)"
    and "fallback \<equiv> or_default (webpFallback opts) True"
    and "canvasToBlob \<equiv> toBlob browser (draw_crop bbox (or_default (targetSize opts) 128))"
  shows "(\<forall>r. cropResizeToBlob browser bbox opts = Some (Inr r) \<longrightarrow>
            real (sizeBytes r) \<le> maxB \<and> sizeBytes r = enc_blob r) \<and>
         (\<forall>jpegAttempts webpAttempts res.
            has_context browser \<and> bitmap_resolves browser \<and>
            encode_search canvasToBlob tSize maxB qStart qStep minQ fallback =
              Some (jpegAttempts, webpAttempts, res) \<and>
            (\<forall>q\<in>set jpegAttempts. \<exists>s. canvasToBlob ''image/jpeg'' q = Inr s \<and> real s > maxB) \<and>
            (\<forall>q\<in>set webpAttempts. \<forall>s. canvasToBlob ''image/webp'' q = Inr s \<longrightarrow> real s > maxB) \<longrightarrow>
            cropResizeToBlob browser bbox opts = Some (Inl SizeExceeded)) \<and>
         (rounding_error qStart minQ qStep < qStep \<longrightarrow>
            (\<exists>jpegAttempts webpAttempts res.
               encode_search canvasToBlob tSize maxB qStart qStep minQ fallback =
                 Some (jpegAttempts, webpAttempts, res)) \<and>
            (\<exists>outcome. cropResizeToBlob browser bbox opts = Some outcome))"
proof (intro conjI allI impI)
  fix r
  assume "cropResizeToBlob browser bbox opts = Some (Inr r)"
  then obtain j w where "encode_search canvasToBlob tSize maxB qStart qStep minQ fallback =
      Some (j, w, Inr r)"
    unfolding cropResizeToBlob_search tSize_def maxB_def qStart_def qStep_def minQ_def
      fallback_def canvasToBlob_def
    by (auto split: if_splits)
  from encode_search_within_budget [OF this]
  show "real (sizeBytes r) \<le> maxB" and "sizeBytes r = enc_blob r"
    by simp_all
next
  fix jpegAttempts webpAttempts res
  assume a: "has_context browser \<and> bitmap_resolves browser \<and>
            encode_search canvasToBlob tSize maxB qStart qStep minQ fallback =
              Some (jpegAttempts, webpAttempts, res) \<and>
            (\<forall>q\<in>set jpegAttempts. \<exists>s. canvasToBlob ''image/jpeg'' q = Inr s \<and> real s > maxB) \<and>
            (\<forall>q\<in>set webpAttempts. \<forall>s. canvasToBlob ''image/webp'' q = Inr s \<longrightarrow> real s > maxB)"
  then have e: "encode_search canvasToBlob tSize maxB qStart qStep minQ fallback =
              Some (jpegAttempts, webpAttempts, res)"
    by blast
  have "res = Inl SizeExceeded"
    using a by (intro encode_search_exceeded [OF e]) blast+
  with e a show "cropResizeToBlob browser bbox opts = Some (Inl SizeExceeded)"
    unfolding cropResizeToBlob_search tSize_def maxB_def qStart_def qStep_def minQ_def
      fallback_def canvasToBlob_def
    by simp
next
  assume "rounding_error qStart minQ qStep < qStep"
  from encode_search_terminates [OF this, of canvasToBlob tSize maxB fallback]
  obtain j w res where e: "encode_search canvasToBlob tSize maxB qStart qStep minQ fallback =
      Some (j, w, res)"
    by blast
  then show "\<exists>jpegAttempts webpAttempts res.
               encode_search canvasToBlob tSize maxB qStart qStep minQ fallback =
                 Some (jpegAttempts, webpAttempts, res)"
    by blast
  from e show "\<exists>outcome. cropResizeToBlob browser bbox opts = Some outcome"
    unfolding cropResizeToBlob_search tSize_def maxB_def qStart_def qStep_def minQ_def
      fallback_def canvasToBlob_def
    by simp
qed

theorem cropResizeToBlob_budget_witness:
  "cropResizeToBlob stepBrowser boxA noOptions = Some (Inr stepImage) \<and>
   real (sizeBytes stepImage) \<le> 300 * 1024 \<and>
   encode_search (toBlob bigBrowser (draw_crop boxA 128)) 128 (300 * 1024)
     (double 0.9) (double 0.08) (double 0.25) True =
     Some (jpegQualities, webpQualities, Inl SizeExceeded) \<and>
   cropResizeToBlob bigBrowser boxA noOptions = Some (Inl SizeExceeded) \<and>
   rounding_error (double 0.9) (double 0.25) (double 0.08) < double 0.08"
proof -
  have 1: "cropResizeToBlob stepBrowser boxA noOptions = Some (Inr stepImage)"
    unfolding cropResizeToBlob_search default_options stepBrowser_search
    by (simp add: browser_fields)
  have 2: "real (sizeBytes stepImage) \<le> 300 * 1024"
    using cropResizeToBlob_budget [of stepBrowser boxA noOptions] 1
    unfolding default_options by blast
  have 3: "encode_search (toBlob bigBrowser (draw_crop boxA 128)) 128 (300 * 1024)
     (double 0.9) (double 0.08) (double 0.25) True =
     Some (jpegQualities, webpQualities, Inl SizeExceeded)"
    by (rule bigBrowser_search)
  have j: "\<forall>q\<in>set jpegQualities.
             \<exists>s. toBlob bigBrowser (draw_crop boxA 128) ''image/jpeg'' q = Inr s \<and>
                 real s > 300 * 1024"
    by (simp add: browser_fields)
  have w: "\<forall>q\<in>set webpQualities.
             \<forall>s. toBlob bigBrowser (draw_crop boxA 128) ''image/webp'' q = Inr s \<longrightarrow>
                 real s > 300 * 1024"
    by (simp add: browser_fields)
  have 4: "cropResizeToBlob bigBrowser boxA noOptions = Some (Inl SizeExceeded)"
    using cropResizeToBlob_budget [of bigBrowser boxA noOptions] 3 j w browser_fields(3,4)
    unfolding default_options by blast
  have 5: "rounding_error (double 0.9) (double 0.25) (double 0.08) < double 0.08"
    by (rule default_progress)
  from 1 2 3 4 5 show ?thesis by blast
qed

text \<open>
  Claim C1 as stated fails: with \<open>qualityStep = 0\<close> and a browser whose every encoding
  has 400000 bytes, no attempt meets the default budget and the call does not fail with
  the size-exceeded error: the quality stays at 0.9, the JPEG loop runs forever and the call
  never returns.
\<close>

theorem cropResizeToBlob_never_returns_counterexample:
  "cropResizeToBlob bigBrowser boxA (noOptions\<lparr>qualityStep := Some 0\<rparr>) = None"
  by (rule bigBrowser_diverges) simp_all

text \<open>
  Claim C10, as amended. Let \<open>e\<close> be
  \<open>(\<bar>qualityStart\<bar> + \<bar>minQuality\<bar> + qualityStep) * pow2 (- 53) + pow2 (- 1075)\<close>, which
  bounds the rounding error of one subtraction \<open>quality - qualityStep\<close> of the loop. For
  every call with \<open>qualityStep > e\<close> and \<open>qualityStart \<ge> minQuality\<close>, the search of lines
  117 to 152 terminates, and so does the call: the quality decreases by at least
  \<open>qualityStep - e\<close> in each iteration and is clamped at \<open>minQuality\<close>, so the JPEG search
  makes at most \<open>1 + ceiling ((qualityStart - minQuality) / (qualityStep - e))\<close> calls of
  \<open>canvasToBlob\<close>; and the WebP fallback, with its start 0.9, step 0.12 and floor 0.25, at
  most \<open>1 + ceiling ((0.9 - 0.25) / 0.12)\<close>, that is 7.
\<close>

theorem quality_search_bounded:
  fixes browser :: Browser and bbox :: BoundingBox and opts :: EncodeOptions
  defines "qStart \<equiv> or_default (qualityStart opts) (double 0.9)"
    and "qStep \<equiv> or_default (qualityStep opts) (double 0.08)"
    and "minQ \<equiv> or_default (minQuality opts) (double 0.25)"
    and "tSize \<equiv> or_default (targetSize opts) 128"
  defines "e \<equiv> rounding_error qStart minQ qStep"
  assumes "e < qStep" and "minQ \<le> qStart"
  shows "\<exists>jpegAttempts webpAttempts res.
           encode_search (toBlob browser (draw_crop bbox tSize)) tSize
             (or_default (maxBytes opts) (300 * 1024)) qStart qStep minQ
             (or_default (webpFallback opts) True) = Some (jpegAttempts, webpAttempts, res) \<and>
           int (length jpegAttempts) \<le> 1 + \<lceil>(qStart - minQ) / (qStep - e)\<rceil> \<and>
           int (length webpAttempts) \<le> 1 + \<lceil>(0.9 - 0.25) / (0.12::real)\<rceil> \<and>
           cropResizeToBlob browser bbox opts =
             Some (if \<not> has_context browser then Inl NoCanvasContext
                   else if \<not> bitmap_resolves browser then Inl BitmapFailed
                   else res)"
proof -
  have p: "rounding_error qStart minQ qStep < qStep"
    using assms(6) unfolding e_def .
  from encode_search_terminates [OF p, of "toBlob browser (draw_crop bbox tSize)" tSize
      "or_default (maxBytes opts) (300 * 1024)" "or_default (webpFallback opts) True"]
  obtain j w res where s: "encode_search (toBlob browser (draw_crop bbox tSize)) tSize
             (or_default (maxBytes opts) (300 * 1024)) qStart qStep minQ
             (or_default (webpFallback opts) True) = Some (j, w, res)"
    and j: "length j \<le> 1 + nat \<lceil>(qStart - minQ) / (qStep - e)\<rceil>" and w: "length w \<le> 7"
    unfolding e_def by blast
  have "0 \<le> (qStart - minQ) / (qStep - e)" using assms(6,7) by simp
  then have "0 \<le> \<lceil>(qStart - minQ) / (qStep - e)\<rceil>" by simp
  with j have 1: "int (length j) \<le> 1 + \<lceil>(qStart - minQ) / (qStep - e)\<rceil>" by linarith
  have "(0.9 - 0.25) / (0.12::real) = 65 / 12" by simp
  moreover have "\<lceil>65 / 12 :: real\<rceil> = 6" by (simp add: ceiling_eq_iff)
  ultimately have "\<lceil>(0.9 - 0.25) / (0.12::real)\<rceil> = 6" by simp
  with w have 2: "int (length w) \<le> 1 + \<lceil>(0.9 - 0.25) / (0.12::real)\<rceil>" by simp
  have 3: "cropResizeToBlob browser bbox opts =
             Some (if \<not> has_context browser then Inl NoCanvasContext
                   else if \<not> bitmap_resolves browser then Inl BitmapFailed
                   else res)"
    using s unfolding cropResizeToBlob_search qStart_def qStep_def minQ_def tSize_def by simp
  from s 1 2 3 show ?thesis by blast
qed

theorem quality_search_bounded_witness:
  "rounding_error (double 0.9) (double 0.25) (double 0.08) < double 0.08 \<and>
   double 0.25 \<le> double 0.9 \<and>
   encode_search (toBlob bigBrowser (draw_crop boxA 128)) 128 (300 * 1024)
     (double 0.9) (double 0.08) (double 0.25) True =
     Some (jpegQualities, webpQualities, Inl SizeExceeded) \<and>
   length jpegQualities = 10 \<and>
   (10::int) \<le> 1 + \<lceil>(double 0.9 - double 0.25) /
                      (double 0.08 - rounding_error (double 0.9) (double 0.25) (double 0.08))\<rceil> \<and>
   1 + \<lceil>(double 0.9 - double 0.25) /
          (double 0.08 - rounding_error (double 0.9) (double 0.25) (double 0.08))\<rceil> = 10 \<and>
   length webpQualities = 7 \<and>
   (7::int) \<le> 1 + \<lceil>(0.9 - 0.25) / (0.12::real)\<rceil> \<and>
   cropResizeToBlob bigBrowser boxA noOptions = Some (Inl SizeExceeded)"
proof -
  have 1: "rounding_error (double 0.9) (double 0.25) (double 0.08) < double 0.08"
    by (rule default_progress)
  have 2: "double 0.25 \<le> double 0.9"
    unfolding double_0_9 double_0_25 by (simp add: fx_def)
  from quality_search_bounded [of noOptions bigBrowser boxA, unfolded default_options, OF 1 2]
  obtain j w res where
    s: "encode_search (toBlob bigBrowser (draw_crop boxA 128)) 128 (300 * 1024)
          (double 0.9) (double 0.08) (double 0.25) True = Some (j, w, res)"
    and b: "int (length j) \<le> 1 + \<lceil>(double 0.9 - double 0.25) /
                      (double 0.08 - rounding_error (double 0.9) (double 0.25) (double 0.08))\<rceil>"
      "int (length w) \<le> 1 + \<lceil>(0.9 - 0.25) / (0.12::real)\<rceil>"
    and c: "cropResizeToBlob bigBrowser boxA noOptions =
             Some (if \<not> has_context bigBrowser then Inl NoCanvasContext
                   else if \<not> bitmap_resolves bigBrowser then Inl BitmapFailed
                   else res)"
    by blast
  from s have r: "j = jpegQualities" "w = webpQualities" "res = Inl SizeExceeded"
    unfolding bigBrowser_search by simp_all
  have l: "length jpegQualities = 10" "length webpQualities = 7"
    by (simp_all add: jpegQualities_def webpQualities_def)
  from c r have 3: "cropResizeToBlob bigBrowser boxA noOptions = Some (Inl SizeExceeded)"
    by (simp add: browser_fields)
  from b r l have 4: "(10::int) \<le> 1 + \<lceil>(double 0.9 - double 0.25) /
                      (double 0.08 - rounding_error (double 0.9) (double 0.25) (double 0.08))\<rceil>"
    and 5: "(7::int) \<le> 1 + \<lceil>(0.9 - 0.25) / (0.12::real)\<rceil>"
    by simp_all
  from 1 2 s r l 3 4 5 default_amended_bound show ?thesis by blast
qed

text \<open>
  Claim C10 as stated fails, in both of its parts. With the positive step \<open>1 / 2 ^ 60\<close>, the
  default start 0.9 and floor 0.25, and a browser whose every encoding has 400000 bytes,
  the subtraction gives 0.9 again, the JPEG loop runs forever and the call never returns.
  With the start 0.9, the step 0.1 and the floor 0.3 and that browser, the JPEG search
  makes 8 calls, at the qualities 0.9, 0.8, 0.7000000000000001, 0.6000000000000001,
  0.5000000000000001, 0.40000000000000013, 0.30000000000000016 and 0.3, and the bound
  \<open>1 + ceiling ((qualityStart - minQuality) / qualityStep)\<close> is 7. With the start 1, the
  step 0.1 and the floor 0 it makes 12 calls, and the bound is 11.
\<close>

theorem quality_search_unbounded_counterexample:
  "(0::real) < 1 / 2 ^ 60 \<and> double 0.25 \<le> double 0.9 \<and>
   cropResizeToBlob bigBrowser boxA (noOptions\<lparr>qualityStep := Some (1 / 2 ^ 60)\<rparr>) = None \<and>
   0 < double 0.1 \<and> double 0.3 \<le> double 0.9 \<and>
   encode_search (toBlob bigBrowser (draw_crop boxA 128)) 128 (300 * 1024)
     (double 0.9) (double 0.1) (double 0.3) True =
     Some (tenthQualities, webpQualities, Inl SizeExceeded) \<and>
   int (length tenthQualities) = 8 \<and>
   1 + \<lceil>(double 0.9 - double 0.3) / double 0.1\<rceil> = 7 \<and>
   encode_search (toBlob bigBrowser (draw_crop boxA 128)) 128 (300 * 1024)
     (double 1) (double 0.1) (double 0) True =
     Some (unitQualities, webpQualities, Inl SizeExceeded) \<and>
   int (length unitQualities) = 12 \<and>
   1 + \<lceil>(double 1 - double 0) / double 0.1\<rceil> = 11"
proof -
  have 1: "cropResizeToBlob bigBrowser boxA (noOptions\<lparr>qualityStep := Some (1 / 2 ^ 60)\<rparr>) = None"
    by (rule bigBrowser_diverges) simp_all
  have 2: "double 0.25 \<le> double 0.9" "0 < double 0.1" "double 0.3 \<le> double 0.9"
    unfolding double_0_9 double_0_25 double_0_1 double_0_3 by (simp_all add: fx_def)
  have 3: "int (length tenthQualities) = 8"
    by (simp add: tenthQualities_def)
  have "(double 0.9 - double 0.3) / double 0.1 = 6"
    unfolding double_0_9 double_0_1 double_0_3 by (simp add: fx_def)
  then have 4: "1 + \<lceil>(double 0.9 - double 0.3) / double 0.1\<rceil> = 7"
    by simp
  have 5: "int (length unitQualities) = 12"
    by (simp add: unitQualities_def)
  have "\<lceil>(double 1 - double 0) / double 0.1\<rceil> = 10"
    unfolding double_1 double_0_1 double_0 by (simp add: fx_def ceiling_eq_iff)
  then have 6: "1 + \<lceil>(double 1 - double 0) / double 0.1\<rceil> = 11"
    by simp
  have 7: "(0::real) < 1 / 2 ^ 60" by simp
  from 1 2 3 4 5 6 7 bigBrowser_tenth_search [of "draw_crop boxA 128"]
    bigBrowser_unit_search [of "draw_crop boxA 128"]
  show ?thesis by blast
qed

section \<open>Properties of the capture cycle\<close>

subsection \<open>Every cycle ends\<close>

lemma cropResizeToBlob_default_returns: "\<exists>r. cropResizeToBlob b bbox noOptions = Some r"
proof -
  from encode_search_terminates [OF default_progress, of "toBlob b (draw_crop bbox 128)" 128
      "300 * 1024" True]
  show ?thesis
    unfolding cropResizeToBlob_search default_options by auto
qed

lemma process_face_returns: "\<exists>f. process_face b p = Some f"
proof -
  obtain bbox index where p: "p = (bbox, index)" by (cases p)
  from cropResizeToBlob_default_returns [of b bbox] obtain r where
    "cropResizeToBlob b bbox noOptions = Some r" by blast
  then show ?thesis
    by (cases r) (simp_all add: process_face_def p)
qed

lemma promise_all_returns:
  "(\<And>p. p \<in> set ps \<Longrightarrow> \<exists>v. p = Some v) \<Longrightarrow> \<exists>vs. promise_all ps = Some vs"
proof (induction ps)
  case Nil
  show ?case by simp
next
  case (Cons p ps)
  from Cons.prems [of p] obtain v where "p = Some v" by auto
  moreover from Cons obtain vs where "promise_all ps = Some vs" by auto
  ultimately show ?case by simp
qed

lemma faces_return: "\<exists>results. promise_all (map (process_face b) ps) = Some results"
  by (rule promise_all_returns) (auto simp: process_face_returns)

lemma cycle_try_returns: "\<exists>r. cycle_try env contextText svc st = Some r"
proof -
  have f: "\<And>ds. promise_all (map (process_face (page_browser env)) ds) \<noteq> None"
    using faces_return by (metis option.distinct(1))
  show ?thesis
    unfolding cycle_try_def Let_def
    by (auto split: option.splits sum.splits prod.splits simp: f)
qed

lemma captureAndProcess_releases:
  assumes "\<not> isUploadingRef st"
  shows "\<exists>svc' st'. captureAndProcess env contextText (svc, st) = Some (svc', st') \<and>
           \<not> isUploadingRef st'"
proof -
  from cycle_try_returns [of env contextText svc st] obtain svc' st' thrown where
    "cycle_try env contextText svc st = Some (svc', st', thrown)"
    by (metis prod_cases3)
  with assms show ?thesis
    by (simp add: captureAndProcess_def Let_def)
qed

lemma captureAndProcess_skips:
  "isUploadingRef st \<Longrightarrow> captureAndProcess env contextText (svc, st) = Some (svc, st)"
  by (simp add: captureAndProcess_def)

lemma capture_cycles_release:
  assumes "\<not> isUploadingRef (snd w)"
  shows "\<exists>ws. capture_cycles envs contextText w = Some ws \<and> length ws = length envs \<and>
           list_all (\<lambda>w'. \<not> isUploadingRef (snd w')) ws"
  using assms
proof (induction envs arbitrary: w)
  case Nil
  show ?case by simp
next
  case (Cons env envs)
  obtain svc st where w: "w = (svc, st)" by (cases w)
  with Cons.prems captureAndProcess_releases [of st env contextText svc]
  obtain svc' st' where c: "captureAndProcess env contextText w = Some (svc', st')"
    and g: "\<not> isUploadingRef st'"
    by auto
  from Cons.IH [of "(svc', st')"] g obtain ws where
    "capture_cycles envs contextText (svc', st') = Some ws" "length ws = length envs"
    "list_all (\<lambda>w'. \<not> isUploadingRef (snd w')) ws"
    by auto
  with c g show ?case by simp
qed

subsection \<open>Six cycles, evaluated\<close>

lemma session_ready: "session readyService" "session readyService5"
  by (simp_all add: readyService_def readyService5_def)

lemma channels_irrelevant:
  "spec_box (svc\<lparr>channels := c\<rparr>) outp W H n i = spec_box svc outp W H n i"
  "survives (svc\<lparr>channels := c\<rparr>) outp n = survives svc outp n"
  by (simp_all add: spec_box_def spec_xCenter_def spec_yCenter_def spec_width_def spec_height_def
      spec_confidence_def spec_classScore_def raw_def survives_def fun_eq_iff)

lemma processOutput_edge5: "processOutput readyService5 edgeTensor 64 64 = [edgeBox]"
proof -
  have c: "channel_count readyService5 edgeTensor = 5" and n: "numProposals readyService5 = 8400"
    by (simp_all add: channel_count_def readyService5_def ready_fields)
  have f: "filter (survives readyService edgeTensor 5) [0..<8400] = [79]"
    by (rule filter_upt_single) (simp_all add: survives_edge)
  show ?thesis
    unfolding processOutput_spec c n
    by (simp add: readyService5_def channels_irrelevant f spec_box_edge nonMaxSuppression_def)
qed

lemma survives_quiet:
  assumes "i < 8400"
  shows "\<not> survives readyService quietTensor 5 i"
proof -
  have "quietTensor ! (4 * 8400 + i) = - 1"
    unfolding quietTensor_def
    using nth_append_length_plus [of "replicate (4 * 8400) (0::real)" "replicate 8400 (- 1)" i] assms
    by simp
  then have "spec_confidence readyService quietTensor 5 i = sigmoid (- 1)"
    by (simp add: spec_confidence_def spec_classScore_def raw_def ready_fields)
  then show ?thesis
    using sigmoid_minus_1
    by (simp add: survives_def CONFIDENCE_THRESHOLD_def)
qed

lemma processOutput_quiet: "processOutput (readyService\<lparr>channels := c\<rparr>) quietTensor 64 64 = []"
  if "c = 0 \<or> c = 5"
proof -
  have l: "length quietTensor = 42000" by (simp add: quietTensor_def)
  have c: "channel_count (readyService\<lparr>channels := c\<rparr>) quietTensor = 5"
    using that by (auto simp: channel_count_def ready_fields l)
  have n: "numProposals (readyService\<lparr>channels := c\<rparr>) = 8400"
    by (simp add: ready_fields)
  have f: "filter (survives readyService quietTensor 5) [0..<8400] = []"
    by (simp add: filter_empty_conv survives_quiet)
  show ?thesis
    unfolding processOutput_spec c n
    by (simp add: channels_irrelevant f nonMaxSuppression_def)
qed

lemma env_fields:
  "videos uploadEnv = [frontVideo]" "snapshot_resolves uploadEnv" "context2d uploadEnv"
  "inference uploadEnv = Inr edgeOutput"
  "page_browser uploadEnv = stepBrowser" "upload uploadEnv = Inr happyResult"
  "clock uploadEnv = ''10:00:00''" "uuid uploadEnv = ''id-1''"
  "readyState frontVideo = 4" "videoWidth frontVideo = 64" "videoHeight frontVideo = 64"
  by (simp_all add: uploadEnv_def frontVideo_def)

lemma detect_edge:
  "detectFaces readyService (Inr (64, 64)) True (Inr edgeOutput) =
     Inr (readyService5, [edgeBox])"
  "detectFaces readyService5 (Inr (64, 64)) True (Inr edgeOutput) =
     Inr (readyService5, [edgeBox])"
  using processOutput_edge5
  by (simp_all add: detectFaces_def ready_fields session_ready edgeOutput_def)
     (simp_all add: readyService5_def ready_fields)

lemma detect_quiet:
  "detectFaces readyService5 (Inr (64, 64)) True (Inr quietOutput) =
     Inr (readyService5, [])"
  using processOutput_quiet [of 5]
  by (simp add: detectFaces_def ready_fields session_ready quietOutput_def)
     (simp add: readyService5_def)

lemma detect_fails:
  "detectFaces readyService5 (Inr (64, 64)) True (Inl InferenceFailed) = Inl InferenceFailed"
  by (simp add: detectFaces_def session_ready)

lemma crop_step: "cropResizeToBlob stepBrowser bbox noOptions = Some (Inr stepImage)"
  unfolding cropResizeToBlob_search default_options stepBrowser_search
  by (simp add: browser_fields)

lemma crop_big: "cropResizeToBlob bigBrowser bbox noOptions = Some (Inl SizeExceeded)"
  unfolding cropResizeToBlob_search default_options bigBrowser_search
  by (simp add: browser_fields)

lemma faces_edge:
  "promise_all (map (process_face stepBrowser) (zip (sortedDetections [edgeBox]) [0..<length (sortedDetections [edgeBox])]))
     = Some [Some edgeFace]"
  "promise_all (map (process_face bigBrowser) (zip (sortedDetections [edgeBox]) [0..<length (sortedDetections [edgeBox])]))
     = Some [None]"
  by (simp_all add: sortedDetections_def process_face_def crop_step crop_big edgeFace_def
      stepImage_def edgeBox_def)

lemma cycle_noVideo:
  "captureAndProcess noVideoEnv c (readyService, initialAppState) = Some (readyService, initialAppState)"
  by (simp add: captureAndProcess_def cycle_try_def cycle_enter_def Let_def noVideoEnv_def env_fields
      largest_video_def initialAppState_def)

lemma cycle_encodeFail:
  "captureAndProcess encodeFailEnv c (readyService, initialAppState) = Some (readyService5, idleState)"
  by (simp add: captureAndProcess_def cycle_try_def cycle_enter_def Let_def encodeFailEnv_def env_fields
      largest_video_def detect_edge faces_edge)
     (simp add: initialAppState_def idleState_def)

lemma cycle_uploadFail:
  "captureAndProcess uploadFailEnv c (readyService5, idleState) = Some (readyService5, uploadFailedState)"
  by (simp add: captureAndProcess_def cycle_try_def cycle_enter_def Let_def uploadFailEnv_def env_fields
      largest_video_def detect_edge faces_edge analyzeFaces_def)
     (simp add: initialAppState_def idleState_def uploadFailedState_def)

lemma cycle_upload:
  "captureAndProcess uploadEnv c (readyService5, uploadFailedState) = Some (readyService5, uploadedState)"
  by (simp add: captureAndProcess_def cycle_try_def cycle_enter_def Let_def env_fields
      largest_video_def detect_edge faces_edge analyzeFaces_def)
     (simp add: initialAppState_def uploadedState_def uploadFailedState_def happyResult_def
        or_default_def)

lemma cycle_inferenceFail:
  "captureAndProcess inferenceFailEnv c (readyService5, uploadedState) =
     Some (readyService5, inferenceFailedState)"
  by (simp add: captureAndProcess_def cycle_try_def cycle_enter_def Let_def inferenceFailEnv_def env_fields
      largest_video_def detect_fails)
     (simp add: initialAppState_def uploadedState_def inferenceFailedState_def)

lemma cycle_noBox:
  "captureAndProcess noBoxEnv c (readyService5, inferenceFailedState) = Some (readyService5, quietState)"
  by (simp add: captureAndProcess_def cycle_try_def cycle_enter_def Let_def noBoxEnv_def env_fields
      largest_video_def detect_quiet)
     (simp add: initialAppState_def uploadedState_def inferenceFailedState_def quietState_def)

lemma six_cycles:
  "capture_cycles [noVideoEnv, encodeFailEnv, uploadFailEnv, uploadEnv, inferenceFailEnv, noBoxEnv]
     ''AI Summit'' (readyService, initialAppState) =
   Some [(readyService, initialAppState), (readyService5, idleState),
         (readyService5, uploadFailedState), (readyService5, uploadedState),
         (readyService5, inferenceFailedState), (readyService5, quietState)]"
  by (simp add: cycle_noVideo cycle_encodeFail cycle_uploadFail cycle_upload cycle_inferenceFail
      cycle_noBox)

subsection \<open>The claim about the guard\<close>

text \<open>
  Claim C7, as amended. For every capture cycle that starts with the guard
  \<open>isUploadingRef\<close> false, and whatever the surroundings do (no usable video, no box
  detected, every encoding failing, a successful upload, or any error thrown), the cycle
  ends and the guard is false again when it ends; so the guard is false before and after
  each of any number of cycles run one after the other, and a failed cycle never leaves it
  set. A call made while the guard is set (the busy skip) returns at once and leaves the
  state, and so the guard, as it is. Every awaited call of the surroundings is taken to
  resolve or to reject.
\<close>

theorem captureAndProcess_guard:
  "(\<not> isUploadingRef st \<longrightarrow>
      (\<exists>svc' st'. captureAndProcess env contextText (svc, st) = Some (svc', st') \<and>
                  \<not> isUploadingRef st')) \<and>
   (\<not> isUploadingRef st \<longrightarrow>
      (\<exists>ws. capture_cycles envs contextText (svc, st) = Some ws \<and> length ws = length envs \<and>
            list_all (\<lambda>w. \<not> isUploadingRef (snd w)) ws)) \<and>
   (isUploadingRef st \<longrightarrow> captureAndProcess env contextText (svc, st) = Some (svc, st))"
  using captureAndProcess_releases [of st env contextText svc]
    capture_cycles_release [of "(svc, st)" envs contextText]
    captureAndProcess_skips [of st env contextText svc]
  by simp

theorem captureAndProcess_guard_witness:
  "\<not> isUploadingRef initialAppState \<and>
   captureAndProcess uploadFailEnv ''AI Summit'' (readyService5, idleState) =
     Some (readyService5, uploadFailedState) \<and>
   status uploadFailedState = Error \<and> \<not> isUploadingRef uploadFailedState \<and>
   capture_cycles [noVideoEnv, encodeFailEnv, uploadFailEnv, uploadEnv, inferenceFailEnv, noBoxEnv]
     ''AI Summit'' (readyService, initialAppState) =
   Some [(readyService, initialAppState), (readyService5, idleState),
         (readyService5, uploadFailedState), (readyService5, uploadedState),
         (readyService5, inferenceFailedState), (readyService5, quietState)] \<and>
   list_all (\<lambda>w. \<not> isUploadingRef (snd w))
     [(readyService, initialAppState), (readyService5, idleState),
      (readyService5, uploadFailedState), (readyService5, uploadedState),
      (readyService5, inferenceFailedState), (readyService5, quietState)] \<and>
   isUploadingRef (cycle_enter initialAppState) \<and>
   captureAndProcess uploadEnv ''AI Summit'' (readyService, cycle_enter initialAppState) =
     Some (readyService, cycle_enter initialAppState)"
proof -
  have g0: "\<not> isUploadingRef initialAppState" and g1: "\<not> isUploadingRef idleState"
    by (simp_all add: initialAppState_def idleState_def)
  have b: "isUploadingRef (cycle_enter initialAppState)"
    by (simp add: cycle_enter_def)
  have e: "status uploadFailedState = Error"
    by (simp add: uploadFailedState_def)
  note t1 = captureAndProcess_guard [of idleState uploadFailEnv "''AI Summit''" readyService5]
  note t2 = captureAndProcess_guard [of initialAppState _ "''AI Summit''" readyService
      "[noVideoEnv, encodeFailEnv, uploadFailEnv, uploadEnv, inferenceFailEnv, noBoxEnv]"]
  note t3 = captureAndProcess_guard [of "cycle_enter initialAppState" uploadEnv "''AI Summit''"
      readyService]
  from t1 g1 have 1: "\<not> isUploadingRef uploadFailedState"
    by (simp add: cycle_uploadFail)
  from t2 g0 have 2: "list_all (\<lambda>w. \<not> isUploadingRef (snd w))
     [(readyService, initialAppState), (readyService5, idleState),
      (readyService5, uploadFailedState), (readyService5, uploadedState),
      (readyService5, inferenceFailedState), (readyService5, quietState)]"
    unfolding six_cycles by blast
  from t3 b have 3: "captureAndProcess uploadEnv ''AI Summit'' (readyService, cycle_enter initialAppState) =
     Some (readyService, cycle_enter initialAppState)"
    by blast
  from g0 e b 1 2 3 cycle_uploadFail six_cycles show ?thesis
    by blast
qed

text \<open>
  Claim C7 as stated fails on the busy skip: a call made while a cycle is in flight, in the
  state that cycle has entered, finds the guard set and ends with the guard still set.
\<close>

theorem captureAndProcess_busy_skip_counterexample:
  "isUploadingRef (cycle_enter initialAppState) \<and>
   captureAndProcess uploadEnv ''AI Summit'' (readyService, cycle_enter initialAppState) =
     Some (readyService, cycle_enter initialAppState)"
  by (simp add: captureAndProcess_def cycle_enter_def)

end
